theory Spec2Isabelle
  imports Main
begin

unbundle bit_operations_syntax

section \<open>Data model\<close>

text \<open>
  The recursive-backtracking maze generator of \<^verbatim>\<open>C++/mazes/maze1/maze.cpp\<close>.

  A C++ \<^verbatim>\<open>int\<close> has 32 bits. The model computes in the integers and applies \<open>int32\<close>
  to the result of every addition, subtraction and multiplication of the program that
  can leave the range of \<^verbatim>\<open>int\<close>: the value wrapped into \<open>-2147483648 .. 2147483647\<close>, which
  is what the compiled program computes on a two's-complement machine (for the standard
  a signed overflow is undefined behaviour). The loop counters, which are incremented
  only below a bound that is itself an \<^verbatim>\<open>int\<close>, and the indices 0 to 3 of the shuffle need
  no wrapping. The arguments of the constructor are values of type \<^verbatim>\<open>int\<close>; the theorems
  state the range they need.
\<close>

definition int32 :: "int \<Rightarrow> int" where
  "int32 z = (z + 2147483648) mod 4294967296 - 2147483648"

datatype direction = N | S | E | W

text \<open>
  Modelled from the spec: the header \<^verbatim>\<open>maze.h\<close> with the direction constants and the
  tables \<^verbatim>\<open>DX\<close>, \<^verbatim>\<open>DY\<close>, \<^verbatim>\<open>OPPOSITE\<close> is missing. The cell state is a 4-bit set over
  the directions, the vectors are North=(0,-1), South=(0,1), East=(1,0), West=(-1,0),
  and the opposite directions are North/South and East/West. \<open>bit_of\<close> is the integer
  a direction stands for in \<^verbatim>\<open>_grid[..] |= direction\<close> and \<^verbatim>\<open>val & S\<close>: one bit per
  direction. The spec does not say which bit belongs to which direction; the order
  1, 2, 4, 8 is taken here, and only the concrete cell values in the evaluations below
  depend on it.
\<close>

fun bit_of :: "direction \<Rightarrow> int" where
  "bit_of N = 1"
| "bit_of S = 2"
| "bit_of E = 4"
| "bit_of W = 8"

fun DX :: "direction \<Rightarrow> int" where
  "DX N = 0"
| "DX S = 0"
| "DX E = 1"
| "DX W = -1"

fun DY :: "direction \<Rightarrow> int" where
  "DY N = -1"
| "DY S = 1"
| "DY E = 0"
| "DY W = 0"

fun OPPOSITE :: "direction \<Rightarrow> direction" where
  "OPPOSITE N = S"
| "OPPOSITE S = N"
| "OPPOSITE E = W"
| "OPPOSITE W = E"

text \<open>
  Reading or writing \<^verbatim>\<open>_grid\<close> outside the allocated array is undefined behaviour in
  C++; the model makes it the error \<open>OutOfArray\<close>. The recursion of
  \<^verbatim>\<open>create_passage_from\<close> uses the call stack; the model bounds its depth and reports
  \<open>StackExhausted\<close> beyond the bound.
\<close>

datatype error = OutOfArray | StackExhausted

text \<open>
  The object's fields \<^verbatim>\<open>_width\<close>, \<^verbatim>\<open>_height\<close>, \<^verbatim>\<open>_seed\<close>, \<^verbatim>\<open>_grid\<close> (the array \<^verbatim>\<open>_grid\<close> points
  to; the empty list for a null pointer), together with the process-wide state of the C
  library's generator (\<open>rand_seed\<close>: the seed of the last \<^verbatim>\<open>srand\<close>; \<open>rand_calls\<close>: how many
  times \<^verbatim>\<open>rand()\<close> was called since) and a counter \<open>entries\<close> that is not in the program:
  it only counts how many times \<^verbatim>\<open>create_passage_from\<close> was entered.
\<close>

record maze =
  width :: int
  height :: int
  seed :: int
  grid :: "int list"
  rand_seed :: int
  rand_calls :: nat
  entries :: nat

text \<open>
  What the constructor finds when it starts: the state in which earlier calls of
  \<^verbatim>\<open>srand\<close> and \<^verbatim>\<open>rand\<close> have left the generator, and the contents of the memory that
  \<^verbatim>\<open>malloc\<close> hands out, which \<^verbatim>\<open>malloc\<close> does not initialise (\<open>fresh e k\<close> is the value found
  in element \<open>k\<close> of the new block).
\<close>

record env =
  prior_seed :: int
  prior_calls :: nat
  fresh :: "nat \<Rightarrow> int"

text \<open>
  The C library's generator is a parameter: \<open>g s k\<close> is the value of the \<open>k\<close>-th call of
  \<^verbatim>\<open>rand()\<close> after \<^verbatim>\<open>srand(s)\<close> (counting from 0). \<^verbatim>\<open>rand()\<close> returns a value between 0 and
  \<^verbatim>\<open>RAND_MAX\<close>, hence a natural number.
\<close>

type_synonym prng = "int \<Rightarrow> nat \<Rightarrow> nat"

definition srand :: "int \<Rightarrow> maze \<Rightarrow> maze" where
  "srand s m = m\<lparr>rand_seed := s, rand_calls := 0\<rparr>"

definition rand :: "prng \<Rightarrow> maze \<Rightarrow> nat \<times> maze" where
  "rand g m = (g (rand_seed m) (rand_calls m), m\<lparr>rand_calls := Suc (rand_calls m)\<rparr>)"

text \<open>
  \<^verbatim>\<open>malloc(sizeof(int) * _width * _height)\<close>. The size is computed in \<^verbatim>\<open>size_t\<close>, taken to
  have 64 bits, so modulo \<open>2^64\<close>, with \<^verbatim>\<open>sizeof(int) = 4\<close>. A request of more than
  \<open>2^63 - 1\<close> bytes fails and yields the null pointer; any other request is taken to
  succeed (the machine has the memory) and yields a block of uninitialised elements.
\<close>

definition malloc_ints :: "env \<Rightarrow> int \<Rightarrow> int \<Rightarrow> int list" where
  "malloc_ints e w h =
     (let bytes = (4 * w * h) mod 18446744073709551616
      in if bytes \<le> 9223372036854775807 then map (fresh e) [0..<nat (bytes div 4)] else [])"

text \<open>
  The loop \<^verbatim>\<open>for (i = 0; i < _width * _height; ++i) _grid[i] = 0\<close> of the constructor, from
  \<open>i\<close> on; \<open>b\<close> is the value of the bound \<^verbatim>\<open>_width * _height\<close>. A write outside the block
  is \<open>OutOfArray\<close>.
\<close>

function zero_loop :: "int \<Rightarrow> int \<Rightarrow> int list \<Rightarrow> error + int list" where
  "zero_loop b i cells =
     (if i < b
      then (if 0 \<le> i \<and> i < int (length cells)
            then zero_loop b (i + 1) (cells[nat i := 0])
            else Inl OutOfArray)
      else Inr cells)"
  by pat_completeness auto
termination
  by (relation "measure (\<lambda>(b, i, cells). nat (b - i))") auto

declare zero_loop.simps [simp del]

text \<open>
  \<^verbatim>\<open>Maze::Maze\<close>: store the fields, seed the generator, allocate the array and zero its
  first \<^verbatim>\<open>_width * _height\<close> elements, the product being computed in \<^verbatim>\<open>int\<close>.
\<close>

definition Maze :: "env \<Rightarrow> int \<Rightarrow> int \<Rightarrow> int \<Rightarrow> error + maze" where
  "Maze e w h s =
     (let m = \<lparr>width = w, height = h, seed = s, grid = [],
                rand_seed = prior_seed e, rand_calls = prior_calls e, entries = 0\<rparr>;
          m1 = srand (seed m) m
      in case zero_loop (int32 (width m1 * height m1)) 0 (malloc_ints e (width m1) (height m1)) of
           Inl err \<Rightarrow> Inl err
         | Inr cells \<Rightarrow> Inr (m1\<lparr>grid := cells\<rparr>))"

text \<open>\<^verbatim>\<open>Maze::index\<close>: \<^verbatim>\<open>y * _width + x\<close> in \<^verbatim>\<open>int\<close>.\<close>

definition index :: "maze \<Rightarrow> int \<Rightarrow> int \<Rightarrow> int" where
  "index m x y = int32 (int32 (y * width m) + x)"

text \<open>The expressions \<^verbatim>\<open>_grid[k]\<close> and \<^verbatim>\<open>_grid[k] |= b\<close>.\<close>

definition grid_read :: "maze \<Rightarrow> int \<Rightarrow> error + int" where
  "grid_read m k =
     (if 0 \<le> k \<and> k < int (length (grid m)) then Inr (grid m ! nat k) else Inl OutOfArray)"

definition grid_or :: "maze \<Rightarrow> int \<Rightarrow> int \<Rightarrow> error + maze" where
  "grid_or m k b =
     (if 0 \<le> k \<and> k < int (length (grid m))
      then Inr (m\<lparr>grid := (grid m)[nat k := (grid m ! nat k) OR b]\<rparr>)
      else Inl OutOfArray)"

section \<open>The carver\<close>

text \<open>
  The first loop of \<^verbatim>\<open>create_passage_from\<close>, from index \<open>i\<close> on:
  \<^verbatim>\<open>for (; i < 4; ++i) { r = i + rand() % (4-i); swap directions[i], directions[r] }\<close>.
\<close>

function shuffle :: "prng \<Rightarrow> nat \<Rightarrow> direction list \<times> maze \<Rightarrow> direction list \<times> maze" where
  "shuffle g i (ds, m) =
     (if i < 4
      then (case rand g m of (v, m') \<Rightarrow>
              let r = i + v mod (4 - i)
              in shuffle g (i + 1) (ds[i := ds ! r, r := ds ! i], m'))
      else (ds, m))"
  by pat_completeness auto
termination
  by (relation "measure (\<lambda>(g, i, p). 4 - i)") auto

declare shuffle.simps [simp del]

text \<open>
  \<^verbatim>\<open>create_passage_from\<close> with its second loop \<open>carve_loop\<close> over the shuffled directions.
  The first argument bounds the depth of the recursion.
\<close>

fun create_passage_from :: "nat \<Rightarrow> prng \<Rightarrow> int \<Rightarrow> int \<Rightarrow> maze \<Rightarrow> error + maze"
  and carve_loop :: "nat \<Rightarrow> prng \<Rightarrow> int \<Rightarrow> int \<Rightarrow> direction list \<Rightarrow> maze \<Rightarrow> error + maze" where
  "create_passage_from 0 g x y m = Inl StackExhausted"
| "create_passage_from (Suc n) g x y m =
     (case shuffle g 0 ([N, S, E, W], m\<lparr>entries := Suc (entries m)\<rparr>) of
        (ds, m') \<Rightarrow> carve_loop n g x y ds m')"
| "carve_loop n g x y [] m = Inr m"
| "carve_loop n g x y (d # ds) m =
     (let dx = int32 (x + DX d); dy = int32 (y + DY d) in
      if (dy \<ge> 0 \<and> dy \<le> int32 (height m - 1)) \<and> (dx \<ge> 0 \<and> dx \<le> int32 (width m - 1))
      then (case grid_read m (index m dx dy) of
              Inl e \<Rightarrow> Inl e
            | Inr v \<Rightarrow>
                if v = 0
                then (case grid_or m (index m x y) (bit_of d) of
                        Inl e \<Rightarrow> Inl e
                      | Inr m1 \<Rightarrow>
                         (case grid_or m1 (index m1 dx dy) (bit_of (OPPOSITE d)) of
                            Inl e \<Rightarrow> Inl e
                          | Inr m2 \<Rightarrow>
                             (case create_passage_from n g dx dy m2 of
                                Inl e \<Rightarrow> Inl e
                              | Inr m3 \<Rightarrow> carve_loop n g x y ds m3)))
                else carve_loop n g x y ds m)
      else carve_loop n g x y ds m)"

declare carve_loop.simps(2) [simp del]

text \<open>\<^verbatim>\<open>BackTracker::BackTracker\<close>: construct the maze, then carve from (0,0).\<close>

definition BackTracker :: "nat \<Rightarrow> prng \<Rightarrow> env \<Rightarrow> int \<Rightarrow> int \<Rightarrow> int \<Rightarrow> error + maze" where
  "BackTracker n g e w h s =
     (case Maze e w h s of Inl err \<Rightarrow> Inl err | Inr m \<Rightarrow> create_passage_from n g 0 0 m)"

section \<open>The renderer\<close>

text \<open>
  What \<^verbatim>\<open>cout << n\<close> prints for an \<^verbatim>\<open>int\<close>: the decimal digits, after a minus sign for a
  negative number. \<^verbatim>\<open>endl\<close> is the newline character.
\<close>

fun digits :: "nat \<Rightarrow> string" where
  "digits n =
     (if n < 10 then [''0123456789'' ! n]
      else digits (n div 10) @ [''0123456789'' ! (n mod 10)])"

definition show_int :: "int \<Rightarrow> string" where
  "show_int i = (if i < 0 then CHR ''-'' # digits (nat (- i)) else digits (nat i))"

definition endl :: string where
  "endl = [CHR 0x0A]"

text \<open>
  \<^verbatim>\<open>Maze::draw\<close>. The text written to \<^verbatim>\<open>cout\<close> is the result. The first loop writes
  \<^verbatim>\<open>2 * _width - 1\<close> underscores (none when the bound, computed in \<^verbatim>\<open>int\<close>, is not positive). \<open>draw_cell\<close> is the body of the
  inner loop (the two characters of cell \<open>(i, j)\<close>), \<open>draw_cols\<close> the inner loop from
  column \<open>i\<close> on, \<open>draw_row\<close> one round of the outer loop and \<open>draw_rows\<close> the outer loop
  from row \<open>j\<close> on.
\<close>

definition draw_cell :: "maze \<Rightarrow> int \<Rightarrow> int \<Rightarrow> error + string" where
  "draw_cell m i j =
     (case grid_read m (index m i j) of
        Inl e \<Rightarrow> Inl e
      | Inr val \<Rightarrow>
          if val AND bit_of E \<noteq> 0
          then (case grid_read m (index m (int32 (i + 1)) j) of
                  Inl e \<Rightarrow> Inl e
                | Inr nval \<Rightarrow>
                    Inr ((if val AND bit_of S \<noteq> 0 then '' '' else ''_'') @
                         (if (val OR nval) AND bit_of S \<noteq> 0 then '' '' else ''_'')))
          else Inr ((if val AND bit_of S \<noteq> 0 then '' '' else ''_'') @ ''|''))"

function draw_cols :: "maze \<Rightarrow> int \<Rightarrow> int \<Rightarrow> error + string" where
  "draw_cols m j i =
     (if i < width m
      then (case draw_cell m i j of
              Inl e \<Rightarrow> Inl e
            | Inr s \<Rightarrow>
               (case draw_cols m j (i + 1) of Inl e \<Rightarrow> Inl e | Inr t \<Rightarrow> Inr (s @ t)))
      else Inr [])"
  by pat_completeness auto

termination
  by (relation "measure (\<lambda>(m, j, i). nat (width m - i))") auto

definition draw_row :: "maze \<Rightarrow> int \<Rightarrow> error + string" where
  "draw_row m j =
     (case draw_cols m j 0 of Inl e \<Rightarrow> Inl e | Inr s \<Rightarrow> Inr (''|'' @ s @ endl))"

function draw_rows :: "maze \<Rightarrow> int \<Rightarrow> error + string" where
  "draw_rows m j =
     (if j < height m
      then (case draw_row m j of
              Inl e \<Rightarrow> Inl e
            | Inr s \<Rightarrow>
               (case draw_rows m (j + 1) of Inl e \<Rightarrow> Inl e | Inr t \<Rightarrow> Inr (s @ t)))
      else Inr [])"
  by pat_completeness auto

termination
  by (relation "measure (\<lambda>(m, j). nat (height m - j))") auto

definition draw :: "maze \<Rightarrow> error + string" where
  "draw m =
     (case draw_rows m 0 of
        Inl e \<Rightarrow> Inl e
      | Inr rows \<Rightarrow>
          Inr ('' '' @ replicate (nat (int32 (int32 (2 * width m) - 1))) (CHR ''_'') @ endl @
               rows @
               '' width: '' @ show_int (width m) @ '', height: '' @ show_int (height m) @
               '', seed: '' @ show_int (seed m) @ endl))"

text \<open>
  \<^verbatim>\<open>main\<close>, after the parsing of the options, which is not modelled: the three integers
  are arguments.
\<close>

definition main :: "nat \<Rightarrow> prng \<Rightarrow> env \<Rightarrow> int \<Rightarrow> int \<Rightarrow> int \<Rightarrow> error + string" where
  "main n g e w h s =
     (case BackTracker n g e w h s of Inl err \<Rightarrow> Inl err | Inr m \<Rightarrow> draw m)"

declare draw_cols.simps [simp del] draw_rows.simps [simp del] digits.simps [simp del]

text \<open>
  For the concrete evaluations below: a generator, two different states of the process
  before the constructor runs (the second with a generator already in use and with
  non-zero values in fresh memory), and the maze object that the run for width 2,
  height 2 and seed 7 ends in with this generator.
\<close>

definition sample_rand :: prng where
  "sample_rand s k = (nat \<bar>s\<bar> + 7 * k * k + 3 * k) mod 32768"

definition clean_env :: env where
  "clean_env = \<lparr>prior_seed = 1, prior_calls = 0, fresh = (\<lambda>k. 0)\<rparr>"

definition used_env :: env where
  "used_env = \<lparr>prior_seed = 99, prior_calls = 12, fresh = (\<lambda>k. int k + 1)\<rparr>"

definition carved_2x2 :: maze where
  "carved_2x2 =
     \<lparr>width = 2, height = 2, seed = 7, grid = [2, 2, 5, 9], rand_seed = 7, rand_calls = 16,
      entries = 4\<rparr>"

section \<open>Trees as graphs\<close>

text \<open>
  Undirected graphs are symmetric relations here. \<open>tree_on V R\<close>: the graph with nodes
  \<open>V\<close> and adjacency \<open>R\<close> is built from a single node by attaching one new node to an
  old one at a time. A cycle is a list of at least three distinct nodes, each adjacent
  to the next and the last to the first. \<open>edge_set\<close> turns both directions of an
  adjacency into one unordered edge.
\<close>

inductive tree_on :: "'a set \<Rightarrow> ('a \<times> 'a) set \<Rightarrow> bool" where
  single: "tree_on {r} {}"
| grow: "tree_on V R \<Longrightarrow> u \<in> V \<Longrightarrow> v \<notin> V \<Longrightarrow>
         tree_on (insert v V) (insert (u, v) (insert (v, u) R))"

definition cycle :: "('a \<times> 'a) set \<Rightarrow> 'a list \<Rightarrow> bool" where
  "cycle R p \<longleftrightarrow>
     3 \<le> length p \<and> distinct p \<and> (\<forall>i<length p. (p ! i, p ! (Suc i mod length p)) \<in> R)"

definition edge_set :: "('a \<times> 'a) set \<Rightarrow> 'a set set" where
  "edge_set R = (\<lambda>(a, b). {a, b}) ` R"

section \<open>Cells, passages and the state of a carving run\<close>

text \<open>
  \<open>in_bounds\<close> is the condition \<^verbatim>\<open>create_passage_from\<close> checks before it looks at a
  neighbour. \<open>cell_state m x y\<close> is \<^verbatim>\<open>_grid[index(x,y)]\<close> for a cell of the grid, and
  \<open>passage m x y d\<close> says that \<open>(x, y)\<close> is a cell of the grid whose bit for \<open>d\<close> is set.
  A maze object is well formed when its dimensions are positive, their product is
  representable as an \<^verbatim>\<open>int\<close> and its array has \<open>width * height\<close> elements, as after
  \<^verbatim>\<open>Maze::Maze\<close> with such arguments.
\<close>

type_synonym cell = "int \<times> int"

definition in_bounds :: "maze \<Rightarrow> int \<Rightarrow> int \<Rightarrow> bool" where
  "in_bounds m x y \<longleftrightarrow> 0 \<le> x \<and> x < width m \<and> 0 \<le> y \<and> y < height m"

definition cell_state :: "maze \<Rightarrow> int \<Rightarrow> int \<Rightarrow> int" where
  "cell_state m x y = grid m ! nat (index m x y)"

definition passage :: "maze \<Rightarrow> int \<Rightarrow> int \<Rightarrow> direction \<Rightarrow> bool" where
  "passage m x y d \<longleftrightarrow> in_bounds m x y \<and> cell_state m x y AND bit_of d \<noteq> 0"

definition cells :: "maze \<Rightarrow> cell set" where
  "cells m = {(x, y). in_bounds m x y}"

definition neighbour :: "cell \<Rightarrow> direction \<Rightarrow> cell" where
  "neighbour c d = (fst c + DX d, snd c + DY d)"

definition well_formed :: "maze \<Rightarrow> bool" where
  "well_formed m \<longleftrightarrow>
     1 \<le> width m \<and> 1 \<le> height m \<and> width m * height m \<le> 2147483647 \<and>
     length (grid m) = nat (width m * height m)"

text \<open>
  The coordinates and dimensions for which the arithmetic of one round of the second loop
  of \<^verbatim>\<open>create_passage_from\<close> stays inside the range of \<^verbatim>\<open>int\<close>.
\<close>

definition no_wrap :: "maze \<Rightarrow> int \<Rightarrow> int \<Rightarrow> bool" where
  "no_wrap m x y \<longleftrightarrow>
     - 2147483648 < x \<and> x < 2147483647 \<and> - 2147483648 < y \<and> y < 2147483647 \<and>
     - 2147483648 < width m \<and> width m \<le> 2147483647 \<and>
     - 2147483648 < height m \<and> height m \<le> 2147483647"

text \<open>
  The object a successful construction leaves when the product of the dimensions is
  representable: all \<open>w * h\<close> cells zero (no cell when the product is not positive) and
  the generator seeded.
\<close>

definition blank :: "int \<Rightarrow> int \<Rightarrow> int \<Rightarrow> maze" where
  "blank w h s =
     \<lparr>width = w, height = h, seed = s, grid = replicate (nat (w * h)) 0,
      rand_seed = s, rand_calls = 0, entries = 0\<rparr>"

text \<open>
  The cells whose state is still 0, and the directed half-edges: one for every set bit,
  from the cell to its neighbour in that direction.
\<close>

definition unvisited :: "maze \<Rightarrow> cell set" where
  "unvisited m = {(x, y). in_bounds m x y \<and> cell_state m x y = 0}"

definition half :: "maze \<Rightarrow> (cell \<times> cell) set" where
  "half m = {((x, y), neighbour (x, y) d) | x y d. passage m x y d}"

text \<open>
  The two assignments of a carving step, for coordinates inside the grid, as plain
  updates; \<open>dir_ix\<close> is the position of a direction's bit.
\<close>

definition set_or :: "maze \<Rightarrow> int \<Rightarrow> int \<Rightarrow> int \<Rightarrow> maze" where
  "set_or m x y b = m\<lparr>grid := (grid m)[nat (index m x y) := cell_state m x y OR b]\<rparr>"

fun dir_ix :: "direction \<Rightarrow> nat" where
  "dir_ix N = 0" | "dir_ix S = 1" | "dir_ix E = 2" | "dir_ix W = 3"

definition carve :: "maze \<Rightarrow> int \<Rightarrow> int \<Rightarrow> direction \<Rightarrow> maze" where
  "carve m x y d =
     set_or (set_or m x y (bit_of d)) (x + DX d) (y + DY d) (bit_of (OPPOSITE d))"

text \<open>
  The shuffle in closed form: round \<open>i\<close> swaps positions \<open>i\<close> and \<open>pick g m i\<close>, the index
  computed from the \<open>i\<close>-th next value of the stream; \<open>fisher_yates g m k\<close> does the
  rounds \<open>0, \<dots>, k - 1\<close>.
\<close>

definition swap_elems :: "'a list \<Rightarrow> nat \<Rightarrow> nat \<Rightarrow> 'a list" where
  "swap_elems xs i r = xs[i := xs ! r, r := xs ! i]"

definition pick :: "prng \<Rightarrow> maze \<Rightarrow> nat \<Rightarrow> nat" where
  "pick g m i = i + g (rand_seed m) (rand_calls m + i) mod (4 - i)"

definition fisher_yates :: "prng \<Rightarrow> maze \<Rightarrow> nat \<Rightarrow> direction list \<Rightarrow> direction list" where
  "fisher_yates g m k ds = foldl (\<lambda>xs i. swap_elems xs i (pick g m i)) ds [0..<k]"

text \<open>
  The invariant of the recursion at the current cell \<open>c\<close>: the visited cells (those with
  a non-zero state, and \<open>c\<close>) and the half-edges form a tree. \<open>post k m c D m'\<close> relates
  the state \<open>m\<close> before a call (\<open>k = 1\<close>) or before the rest of a loop (\<open>k = 0\<close>) at \<open>c\<close>
  to the state \<open>m'\<close> after it: cells are only ever visited, every cell visited
  meanwhile has all its neighbours visited, so have the neighbours of \<open>c\<close> in the
  directions \<open>D\<close>, and the counters have advanced by one entry and four draws per cell
  visited.
\<close>

definition carve_inv :: "maze \<Rightarrow> cell \<Rightarrow> bool" where
  "carve_inv m c \<longleftrightarrow> well_formed m \<and> c \<in> cells m \<and> tree_on (insert c (cells m - unvisited m)) (half m)"

definition post :: "nat \<Rightarrow> maze \<Rightarrow> cell \<Rightarrow> direction set \<Rightarrow> maze \<Rightarrow> bool" where
  "post k m c D m' \<longleftrightarrow>
     width m' = width m \<and> height m' = height m \<and> seed m' = seed m \<and>
     carve_inv m' c \<and> unvisited m' \<subseteq> unvisited m \<and>
     (\<forall>a \<in> unvisited m - unvisited m' - {c}.
        \<forall>d. neighbour a d \<in> cells m \<longrightarrow> neighbour a d \<notin> unvisited m') \<and>
     (\<forall>d \<in> D. neighbour c d \<in> cells m \<longrightarrow> neighbour c d \<notin> unvisited m') \<and>
     entries m' + card (unvisited m' - {c}) = entries m + card (unvisited m - {c}) + k \<and>
     rand_calls m' + 4 * entries m = rand_calls m + 4 * entries m'"

section \<open>The passage graph and the rendering rule\<close>

text \<open>
  The passage graph of the claims: two cells are joined when they are neighbours in some
  direction and both bits of the pair are set, the bit for the direction in the first
  cell and the bit for the opposite direction in the second.
\<close>

definition passages :: "maze \<Rightarrow> (cell \<times> cell) set" where
  "passages m =
     {(c, c'). \<exists>d. c' = neighbour c d \<and> passage m (fst c) (snd c) d \<and>
                    passage m (fst c') (snd c') (OPPOSITE d)}"

definition connected :: "maze \<Rightarrow> bool" where
  "connected m \<longleftrightarrow> (\<forall>a \<in> cells m. \<forall>b \<in> cells m. (a, b) \<in> (passages m)\<^sup>*)"

definition edges :: "maze \<Rightarrow> cell set set" where
  "edges m = edge_set (passages m)"

definition no_cycles :: "maze \<Rightarrow> bool" where
  "no_cycles m \<longleftrightarrow> (\<forall>p. \<not> cycle (passages m) p)"

text \<open>
  The two characters of a cell in a row line and the whole row line, written from the
  rendering rule rather than from the code.
\<close>

definition south_glyph :: "maze \<Rightarrow> int \<Rightarrow> int \<Rightarrow> char" where
  "south_glyph m i j = (if passage m i j S then CHR '' '' else CHR ''_'')"

definition east_glyph :: "maze \<Rightarrow> int \<Rightarrow> int \<Rightarrow> char" where
  "east_glyph m i j =
     (if passage m i j E
      then (if passage m i j S \<or> passage m (i + 1) j S then CHR '' '' else CHR ''_'')
      else CHR ''|'')"

definition row_line :: "maze \<Rightarrow> int \<Rightarrow> string" where
  "row_line m j =
     ''|'' @ concat (map (\<lambda>i. [south_glyph m i j, east_glyph m i j]) [0..width m - 1]) @ endl"

text \<open>
  The part of one round of the second loop that does not depend on the generator: the
  test of the neighbour and the two assignments. \<open>None\<close> when the neighbour is skipped.
\<close>

definition open_neighbour :: "maze \<Rightarrow> int \<Rightarrow> int \<Rightarrow> direction \<Rightarrow> error + maze option" where
  "open_neighbour m x y d =
     (let dx = int32 (x + DX d); dy = int32 (y + DY d) in
      if (dy \<ge> 0 \<and> dy \<le> int32 (height m - 1)) \<and> (dx \<ge> 0 \<and> dx \<le> int32 (width m - 1))
      then (case grid_read m (index m dx dy) of
              Inl e \<Rightarrow> Inl e
            | Inr v \<Rightarrow>
                if v = 0
                then (case grid_or m (index m x y) (bit_of d) of
                        Inl e \<Rightarrow> Inl e
                      | Inr m1 \<Rightarrow>
                         (case grid_or m1 (index m1 dx dy) (bit_of (OPPOSITE d)) of
                            Inl e \<Rightarrow> Inl e
                          | Inr m2 \<Rightarrow> Inr (Some m2)))
                else Inr None)
      else Inr None)"

section \<open>Properties of trees\<close>

lemma tree_on_finite: "tree_on V R \<Longrightarrow> finite V"
  by (induction rule: tree_on.induct) auto

lemma tree_on_sub: "tree_on V R \<Longrightarrow> (a, b) \<in> R \<Longrightarrow> a \<in> V \<and> b \<in> V"
  by (induction rule: tree_on.induct) auto

lemma tree_on_sym: "tree_on V R \<Longrightarrow> (a, b) \<in> R \<Longrightarrow> (b, a) \<in> R"
  by (induction rule: tree_on.induct) auto

lemma tree_on_finite_rel: "tree_on V R \<Longrightarrow> finite R"
  by (induction rule: tree_on.induct) auto

lemma tree_on_connected:
  "tree_on V R \<Longrightarrow> a \<in> V \<Longrightarrow> b \<in> V \<Longrightarrow> (a, b) \<in> R\<^sup>*"
proof (induction arbitrary: a b rule: tree_on.induct)
  case (single r)
  then show ?case by simp
next
  case (grow V R u v)
  let ?R = "insert (u, v) (insert (v, u) R)"
  have mono: "\<And>x y. (x, y) \<in> R\<^sup>* \<Longrightarrow> (x, y) \<in> ?R\<^sup>*"
    by (rule rtrancl_mono [THEN subsetD]) auto
  have old: "\<And>x y. x \<in> V \<Longrightarrow> y \<in> V \<Longrightarrow> (x, y) \<in> ?R\<^sup>*"
    using grow.IH mono by blast
  have uv: "(u, v) \<in> ?R\<^sup>*" and vu: "(v, u) \<in> ?R\<^sup>*" by auto
  have to_v: "\<And>x. x \<in> V \<Longrightarrow> (x, v) \<in> ?R\<^sup>*"
    using old [OF _ grow.hyps(2)] uv by (meson rtrancl_trans)
  have from_v: "\<And>y. y \<in> V \<Longrightarrow> (v, y) \<in> ?R\<^sup>*"
    using old [OF grow.hyps(2)] vu by (meson rtrancl_trans)
  show ?case
    using grow.prems old to_v from_v by auto
qed

lemma edge_set_insert:
  "edge_set (insert (u, v) (insert (v, u) R)) = insert {u, v} (edge_set R)"
  by (auto simp: edge_set_def insert_commute)

lemma tree_on_card: "tree_on V R \<Longrightarrow> Suc (card (edge_set R)) = card V"
proof (induction rule: tree_on.induct)
  case (single r)
  then show ?case by (simp add: edge_set_def)
next
  case (grow V R u v)
  have fin: "finite (edge_set R)"
    using tree_on_finite_rel [OF grow.hyps(1)] by (simp add: edge_set_def)
  have new: "{u, v} \<notin> edge_set R"
  proof
    assume "{u, v} \<in> edge_set R"
    then obtain a b where ab: "(a, b) \<in> R" "{u, v} = {a, b}"
      by (auto simp: edge_set_def)
    then have "v = a \<or> v = b" by auto
    then show False
      using tree_on_sub [OF grow.hyps(1) ab(1)] grow.hyps(3) by auto
  qed
  show ?case
    using grow.IH fin new grow.hyps(3) tree_on_finite [OF grow.hyps(1)]
    by (simp add: edge_set_insert)
qed

lemma cycle_neighbours:
  assumes "cycle R p" and "i < length p"
  shows "\<exists>a b. a \<noteq> b \<and> (p ! i, a) \<in> R \<and> (b, p ! i) \<in> R \<and> a \<in> set p \<and> b \<in> set p"
proof -
  define k where "k = length p"
  define s where "s = Suc i mod k"
  define t where "t = (if i = 0 then k - 1 else i - 1)"
  have k: "3 \<le> k" and d: "distinct p"
    and e: "\<And>j. j < k \<Longrightarrow> (p ! j, p ! (Suc j mod k)) \<in> R"
    using assms(1) by (auto simp: cycle_def k_def)
  have ik: "i < k" using assms(2) by (simp add: k_def)
  have t: "t < k" using ik k unfolding t_def by arith
  have s: "s < k" using ik by (simp add: s_def)
  have st: "Suc t mod k = i"
  proof (cases "i = 0")
    case True
    then have "Suc t = k" using k by (simp add: t_def)
    then show ?thesis using True by simp
  next
    case False
    then have "Suc t = i" by (simp add: t_def)
    then show ?thesis using ik by simp
  qed
  have ne: "s \<noteq> t"
  proof (cases "Suc i = k")
    case True
    then have "s = 0" by (simp add: s_def)
    moreover have "t = k - 2" using True by (auto simp: t_def)
    ultimately show ?thesis using k by arith
  next
    case False
    then have "Suc i < k" using ik by arith
    then have "s = Suc i" by (simp add: s_def)
    moreover have "(i = 0 \<and> t = k - 1) \<or> (i \<noteq> 0 \<and> t = i - 1)" by (simp add: t_def)
    ultimately show ?thesis using k by arith
  qed
  have "p ! s \<noteq> p ! t"
    using ne s t d by (simp add: nth_eq_iff_index_eq k_def)
  moreover have "(p ! i, p ! s) \<in> R" using e [OF ik] by (simp add: s_def)
  moreover have "(p ! t, p ! i) \<in> R" using e [OF t] st by simp
  moreover have "p ! s \<in> set p" "p ! t \<in> set p" using s t by (simp_all add: k_def)
  ultimately show ?thesis by blast
qed

lemma tree_on_acyclic: "tree_on V R \<Longrightarrow> \<not> cycle R p"
proof (induction arbitrary: p rule: tree_on.induct)
  case (single r)
  show ?case
  proof
    assume "cycle {} p"
    then have "3 \<le> length p" "\<forall>i<length p. False" by (auto simp: cycle_def)
    then show False by (cases p) auto
  qed
next
  case (grow V R u v)
  let ?R = "insert (u, v) (insert (v, u) R)"
  show ?case
  proof
    assume c: "cycle ?R p"
    show False
    proof (cases "v \<in> set p")
      case True
      then obtain i where i: "i < length p" "p ! i = v"
        by (auto simp: in_set_conv_nth)
      from cycle_neighbours [OF c i(1)] i(2)
      obtain a b where ab: "a \<noteq> b" "(v, a) \<in> ?R" "(b, v) \<in> ?R" by auto
      have "a = u"
        using ab(2) tree_on_sub [OF grow.hyps(1)] grow.hyps(3) by auto
      moreover have "b = u"
        using ab(3) tree_on_sub [OF grow.hyps(1)] grow.hyps(3) by auto
      ultimately show False using ab(1) by simp
    next
      case False
      have "cycle R p"
        unfolding cycle_def
      proof (intro conjI allI impI)
        show "3 \<le> length p" "distinct p" using c by (auto simp: cycle_def)
      next
        fix i assume i: "i < length p"
        then have in_R: "(p ! i, p ! (Suc i mod length p)) \<in> ?R"
          using c by (auto simp: cycle_def)
        have "p ! i \<noteq> v" using False i by (metis nth_mem)
        moreover have "p ! (Suc i mod length p) \<noteq> v"
          using False i by (metis mod_less_divisor nth_mem length_pos_if_in_set)
        ultimately show "(p ! i, p ! (Suc i mod length p)) \<in> R"
          using in_R by auto
      qed
      then show False using grow.IH by blast
    qed
  qed
qed

section \<open>Arithmetic inside the range of int\<close>

lemma int32_id: "- 2147483648 \<le> z \<Longrightarrow> z \<le> 2147483647 \<Longrightarrow> int32 z = z"
proof -
  assume "- 2147483648 \<le> z" "z \<le> 2147483647"
  then have "0 \<le> z + 2147483648" "z + 2147483648 < 4294967296" by simp_all
  then have "(z + 2147483648) mod 4294967296 = z + 2147483648" by (rule mod_pos_pos_trivial)
  then show ?thesis by (simp add: int32_def)
qed

lemma well_formed_bounds:
  assumes "well_formed m" "in_bounds m x y"
  shows "0 \<le> y * width m" "y * width m + x < width m * height m"
    "width m \<le> 2147483647" "height m \<le> 2147483647"
proof -
  have w: "1 \<le> width m" and h: "1 \<le> height m" and p: "width m * height m \<le> 2147483647"
    and x: "0 \<le> x" "x < width m" and y: "0 \<le> y" "y + 1 \<le> height m"
    using assms by (auto simp: well_formed_def in_bounds_def)
  show "0 \<le> y * width m" using y(1) w by simp
  have "(y + 1) * width m \<le> height m * width m"
    using y(2) w by (intro mult_right_mono) auto
  then show "y * width m + x < width m * height m"
    using x(2) by (simp add: algebra_simps)
  have "width m * 1 \<le> width m * height m" using w h by (intro mult_left_mono) auto
  then show "width m \<le> 2147483647" using p by simp
  have "1 * height m \<le> width m * height m" using w h by (intro mult_right_mono) auto
  then show "height m \<le> 2147483647" using p by simp
qed

lemma index_eq:
  assumes "well_formed m" "in_bounds m x y"
  shows "index m x y = y * width m + x"
proof -
  have p: "width m * height m \<le> 2147483647" and x: "0 \<le> x"
    using assms by (auto simp: well_formed_def in_bounds_def)
  note b = well_formed_bounds [OF assms]
  have "y * width m \<le> 2147483647" using b(1,2) p x by linarith
  then have "int32 (y * width m) = y * width m" using b(1) by (intro int32_id) auto
  moreover have "int32 (y * width m + x) = y * width m + x"
    using b(1,2) p x by (intro int32_id) linarith+
  ultimately show ?thesis by (simp add: index_def)
qed

lemma no_wrap_in_bounds:
  assumes "well_formed m" "in_bounds m x y"
  shows "no_wrap m x y"
  using well_formed_bounds(3,4) [OF assms] assms
  by (auto simp: no_wrap_def well_formed_def in_bounds_def)

lemma no_wrap_step:
  assumes "no_wrap m x y"
  shows "int32 (x + DX d) = x + DX d" "int32 (y + DY d) = y + DY d"
    "int32 (width m - 1) = width m - 1" "int32 (height m - 1) = height m - 1"
proof -
  have "- 1 \<le> DX d" "DX d \<le> 1" "- 1 \<le> DY d" "DY d \<le> 1" by (cases d; simp)+
  then show "int32 (x + DX d) = x + DX d" "int32 (y + DY d) = y + DY d"
    "int32 (width m - 1) = width m - 1" "int32 (height m - 1) = height m - 1"
    using assms by (auto simp: no_wrap_def intro!: int32_id)
qed

section \<open>Grid accesses and one carving step\<close>

lemma index_range:
  assumes "well_formed m" "in_bounds m x y"
  shows "0 \<le> index m x y" "index m x y < width m * height m"
  using well_formed_bounds(1,2) [OF assms] assms
  by (simp_all add: index_eq [OF assms] in_bounds_def)

lemma index_inj:
  assumes "well_formed m" "in_bounds m x y" "in_bounds m x' y'" "index m x y = index m x' y'"
  shows "x = x' \<and> y = y'"
proof -
  have w: "1 \<le> width m" using assms(1) by (simp add: well_formed_def)
  have e: "y * width m + x = y' * width m + x'"
    using assms(4) by (simp add: index_eq [OF assms(1,2)] index_eq [OF assms(1,3)])
  then have "(y * width m + x) mod width m = (y' * width m + x') mod width m" by simp
  then have xx: "x = x'" using assms(2,3) by (simp add: in_bounds_def)
  then have "y * width m = y' * width m" using e by simp
  then show ?thesis using xx w by simp
qed

lemma grid_read_in_bounds:
  "well_formed m \<Longrightarrow> in_bounds m x y \<Longrightarrow> grid_read m (index m x y) = Inr (cell_state m x y)"
  using index_range [of m x y] by (simp add: grid_read_def cell_state_def well_formed_def)

lemma grid_or_in_bounds:
  "well_formed m \<Longrightarrow> in_bounds m x y \<Longrightarrow> grid_or m (index m x y) b = Inr (set_or m x y b)"
  using index_range [of m x y] by (simp add: grid_or_def set_or_def cell_state_def well_formed_def)

lemma set_or_fields [simp]:
  "width (set_or m x y b) = width m" "height (set_or m x y b) = height m"
  "seed (set_or m x y b) = seed m" "rand_calls (set_or m x y b) = rand_calls m"
  "rand_seed (set_or m x y b) = rand_seed m"
  "entries (set_or m x y b) = entries m" "length (grid (set_or m x y b)) = length (grid m)"
  by (simp_all add: set_or_def)

lemma index_grid_update [simp]: "index (m\<lparr>grid := xs\<rparr>) = index m"
  by (simp add: index_def fun_eq_iff)

lemma set_or_index [simp]: "index (set_or m x y b) = index m"
  by (simp add: set_or_def)

lemma set_or_in_bounds [simp]: "in_bounds (set_or m x y b) = in_bounds m"
  by (simp add: in_bounds_def fun_eq_iff)

lemma set_or_wf [simp]: "well_formed (set_or m x y b) = well_formed m"
  by (simp add: well_formed_def)

lemma set_or_cells [simp]: "cells (set_or m x y b) = cells m"
  by (simp add: cells_def)

lemma cell_state_set_or:
  assumes "well_formed m" "in_bounds m x y" "in_bounds m x' y'"
  shows "cell_state (set_or m x y b) x' y' =
         (if x' = x \<and> y' = y then cell_state m x y OR b else cell_state m x' y')"
proof (cases "x' = x \<and> y' = y")
  case True
  then show ?thesis
    using index_range [OF assms(1,2)] assms(1)
    by (simp add: cell_state_def set_or_def well_formed_def)
next
  case False
  then have "index m x y \<noteq> index m x' y'"
    using index_inj [of m x y x' y'] assms by auto
  then have "nat (index m x y) \<noteq> nat (index m x' y')"
    using index_range(1) [OF assms(1,2)] index_range(1) [OF assms(1,3)] by simp
  then show ?thesis using False
    by (auto simp: cell_state_def set_or_def)
qed

lemma bit_of_exp: "bit_of d = 2 ^ dir_ix d"
  by (cases d) simp_all

lemma dir_ix_inj: "dir_ix d = dir_ix d' \<longleftrightarrow> d = d'"
  by (cases d; cases d') simp_all

lemma test_bit: "v AND bit_of d \<noteq> 0 \<longleftrightarrow> bit v (dir_ix d)"
  by (simp add: bit_of_exp and_exp_eq_0_iff_not_bit)

lemma test_bit_or: "(v OR bit_of d) AND bit_of d' \<noteq> 0 \<longleftrightarrow> v AND bit_of d' \<noteq> 0 \<or> d' = d"
  unfolding test_bit by (auto simp: bit_or_iff bit_of_exp bit_exp_iff dir_ix_inj)

lemma test_bit_zero: "bit_of d AND bit_of d' \<noteq> 0 \<longleftrightarrow> d' = d"
  using test_bit_or [of 0 d d'] by simp

lemma or_bit_nonzero: "v OR bit_of d \<noteq> 0"
  using test_bit_or [of v d d] by auto

lemma neighbour_opposite: "neighbour (neighbour c d) (OPPOSITE d) = c"
  by (cases d) (simp_all add: neighbour_def)

lemma opposite_opposite [simp]: "OPPOSITE (OPPOSITE d) = d"
  by (cases d) simp_all

lemma neighbour_ne: "neighbour c d \<noteq> c"
  by (cases d; cases c) (simp_all add: neighbour_def)

lemma neighbour_inj: "neighbour c d = neighbour c d' \<longleftrightarrow> d = d'"
  by (cases d; cases d'; cases c) (simp_all add: neighbour_def)

lemma carve_loop_out:
  assumes "no_wrap m x y" "\<not> in_bounds m (x + DX d) (y + DY d)"
  shows "carve_loop n g x y (d # ds) m = carve_loop n g x y ds m"
  using assms(2) unfolding carve_loop.simps no_wrap_step [OF assms(1)] Let_def
  by (auto simp: in_bounds_def)

lemma carve_loop_in:
  assumes "well_formed m" "in_bounds m x y" "in_bounds m (x + DX d) (y + DY d)"
  shows "carve_loop n g x y (d # ds) m =
         (if cell_state m (x + DX d) (y + DY d) = 0
          then (case create_passage_from n g (x + DX d) (y + DY d) (carve m x y d) of
                  Inl e \<Rightarrow> Inl e
                | Inr m3 \<Rightarrow> carve_loop n g x y ds m3)
          else carve_loop n g x y ds m)"
proof -
  have 1: "grid_read m (index m (x + DX d) (y + DY d)) = Inr (cell_state m (x + DX d) (y + DY d))"
    using assms by (simp add: grid_read_in_bounds)
  have 2: "grid_or m (index m x y) (bit_of d) = Inr (set_or m x y (bit_of d))"
    using assms by (simp add: grid_or_in_bounds)
  have 3: "grid_or (set_or m x y (bit_of d)) (index m (x + DX d) (y + DY d)) (bit_of (OPPOSITE d))
           = Inr (carve m x y d)"
    using grid_or_in_bounds [of "set_or m x y (bit_of d)" "x + DX d" "y + DY d"] assms
    by (simp add: carve_def)
  have c: "(y + DY d \<ge> 0 \<and> y + DY d \<le> height m - 1) \<and> (x + DX d \<ge> 0 \<and> x + DX d \<le> width m - 1)"
    using assms(3) by (auto simp: in_bounds_def)
  show ?thesis
    unfolding carve_loop.simps no_wrap_step [OF no_wrap_in_bounds [OF assms(1,2)]] Let_def
      if_P [OF c] 1 2
    by (simp add: 3)
qed

lemma carve_fields [simp]:
  "width (carve m x y d) = width m" "height (carve m x y d) = height m"
  "seed (carve m x y d) = seed m" "rand_calls (carve m x y d) = rand_calls m"
  "rand_seed (carve m x y d) = rand_seed m"
  "entries (carve m x y d) = entries m" "in_bounds (carve m x y d) = in_bounds m"
  "well_formed (carve m x y d) = well_formed m" "cells (carve m x y d) = cells m"
  by (simp_all add: carve_def)

lemma cell_state_carve:
  assumes "well_formed m" "in_bounds m x y" "in_bounds m (x + DX d) (y + DY d)" "in_bounds m a b"
  shows "cell_state (carve m x y d) a b =
         (if a = x + DX d \<and> b = y + DY d then cell_state m a b OR bit_of (OPPOSITE d)
          else if a = x \<and> b = y then cell_state m a b OR bit_of d
          else cell_state m a b)"
proof -
  have ne: "\<not> (x + DX d = x \<and> y + DY d = y)" by (cases d) simp_all
  show ?thesis
    using assms ne by (auto simp: carve_def cell_state_set_or)
qed

lemma passage_carve:
  assumes "well_formed m" "in_bounds m x y" "in_bounds m (x + DX d) (y + DY d)"
    and "cell_state m (x + DX d) (y + DY d) = 0"
  shows "passage (carve m x y d) a b d' \<longleftrightarrow>
         passage m a b d' \<or> (a = x \<and> b = y \<and> d' = d) \<or>
         (a = x + DX d \<and> b = y + DY d \<and> d' = OPPOSITE d)"
proof (cases "in_bounds m a b")
  case True
  have ne: "\<not> (x + DX d = x \<and> y + DY d = y)" by (cases d) simp_all
  show ?thesis
    using True assms ne
    by (auto simp: passage_def cell_state_carve [OF assms(1-3) True] test_bit_or test_bit_zero)
next
  case False
  then show ?thesis using assms by (auto simp: passage_def)
qed

lemma unvisited_carve:
  assumes "well_formed m" "in_bounds m x y" "in_bounds m (x + DX d) (y + DY d)"
  shows "unvisited (carve m x y d) = unvisited m - {(x, y), (x + DX d, y + DY d)}"
  using assms by (auto simp: unvisited_def cell_state_carve or_bit_nonzero split: if_splits)

lemma half_carve:
  assumes "well_formed m" "in_bounds m x y" "in_bounds m (x + DX d) (y + DY d)"
    and "cell_state m (x + DX d) (y + DY d) = 0"
  shows "half (carve m x y d) =
         insert ((x, y), (x + DX d, y + DY d)) (insert ((x + DX d, y + DY d), (x, y)) (half m))"
proof -
  have nb: "neighbour (x + DX d, y + DY d) (OPPOSITE d) = (x, y)"
    using neighbour_opposite [of "(x, y)" d] by (simp add: neighbour_def)
  show ?thesis
    using nb unfolding half_def passage_carve [OF assms]
    by (auto simp: neighbour_def)
qed

lemma pick_range: "i < 4 \<Longrightarrow> i \<le> pick g m i \<and> pick g m i \<le> 3"
proof -
  assume i: "i < 4"
  then have "g (rand_seed m) (rand_calls m + i) mod (4 - i) < 4 - i" by simp
  then show ?thesis using i unfolding pick_def by arith
qed

lemma shuffle_step:
  "i < 4 \<Longrightarrow>
   shuffle g i (ds, m) =
   shuffle g (Suc i)
     (swap_elems ds i (i + g (rand_seed m) (rand_calls m) mod (4 - i)),
      m\<lparr>rand_calls := Suc (rand_calls m)\<rparr>)"
  by (subst shuffle.simps) (simp add: rand_def swap_elems_def Let_def)

lemma shuffle_stop: "shuffle g 4 (ds, m) = (ds, m)"
  by (subst shuffle.simps) simp

lemma shuffle_prefix:
  "k \<le> 4 \<Longrightarrow>
   shuffle g 0 (ds, m) =
   shuffle g k (fisher_yates g m k ds, m\<lparr>rand_calls := rand_calls m + k\<rparr>)"
proof (induction k)
  case 0
  then show ?case by (simp add: fisher_yates_def)
next
  case (Suc k)
  then have k: "k < 4" by simp
  have "shuffle g 0 (ds, m) =
        shuffle g k (fisher_yates g m k ds, m\<lparr>rand_calls := rand_calls m + k\<rparr>)"
    using Suc by simp
  also have "\<dots> = shuffle g (Suc k)
      (fisher_yates g m (Suc k) ds, m\<lparr>rand_calls := rand_calls m + Suc k\<rparr>)"
    by (subst shuffle_step [OF k]) (simp add: fisher_yates_def pick_def)
  finally show ?case .
qed

lemma shuffle_unfold:
  "shuffle g 0 (ds, m) = (fisher_yates g m 4 ds, m\<lparr>rand_calls := rand_calls m + 4\<rparr>)"
  using shuffle_prefix [of 4 g ds m] by (simp add: shuffle_stop)

lemma set_swap4: "length xs = 4 \<Longrightarrow> i < 4 \<Longrightarrow> r \<le> 3 \<Longrightarrow> set (swap_elems xs i r) = set xs \<and> length (swap_elems xs i r) = 4"
  unfolding swap_elems_def by (subst set_swap) simp_all

lemma fisher_yates_set: 
  assumes "length ds = 4"
  shows "set (fisher_yates g m 4 ds) = set ds"
proof -
  have "k \<le> 4 \<Longrightarrow> set (fisher_yates g m k ds) = set ds \<and> length (fisher_yates g m k ds) = 4" for k
  proof (induction k)
    case 0
    then show ?case using assms by (simp add: fisher_yates_def)
  next
    case (Suc k)
    then have k: "k < 4" and IH: "set (fisher_yates g m k ds) = set ds" "length (fisher_yates g m k ds) = 4"
      by simp_all
    have "fisher_yates g m (Suc k) ds = swap_elems (fisher_yates g m k ds) k (pick g m k)"
      by (simp add: fisher_yates_def)
    then show ?case
      using set_swap4 [OF IH(2) k, of "pick g m k"] pick_range [OF k, of g m] IH by simp
  qed
  then show ?thesis by simp
qed

lemma all_directions: "set [N, S, E, W] = UNIV"
proof -
  have "d \<in> set [N, S, E, W]" for d by (cases d) simp_all
  then show ?thesis by blast
qed

lemma shuffle_directions:
  "\<exists>ds. shuffle g 0 ([N, S, E, W], m) = (ds, m\<lparr>rand_calls := rand_calls m + 4\<rparr>) \<and> set ds = UNIV"
  using fisher_yates_set [of "[N, S, E, W]" g m] all_directions
  by (simp add: shuffle_unfold)

section \<open>The invariant of the recursion\<close>

lemma cells_eq: "width m' = width m \<Longrightarrow> height m' = height m \<Longrightarrow> cells m' = cells m"
  by (simp add: cells_def in_bounds_def)

lemma cells_product: "cells m = {0..<width m} \<times> {0..<height m}"
  by (auto simp: cells_def in_bounds_def)

lemma finite_cells: "finite (cells m)"
  by (simp add: cells_product)

lemma unvisited_sub: "unvisited m \<subseteq> cells m"
  by (auto simp: unvisited_def cells_def)

lemma finite_unvisited: "finite (unvisited m)"
  using unvisited_sub finite_cells by (rule finite_subset)

lemma ghost_update [simp]:
  "well_formed (m\<lparr>entries := e\<rparr>) = well_formed m" "well_formed (m\<lparr>rand_calls := r\<rparr>) = well_formed m"
  "cells (m\<lparr>entries := e\<rparr>) = cells m" "cells (m\<lparr>rand_calls := r\<rparr>) = cells m"
  "unvisited (m\<lparr>entries := e\<rparr>) = unvisited m" "unvisited (m\<lparr>rand_calls := r\<rparr>) = unvisited m"
  "half (m\<lparr>entries := e\<rparr>) = half m" "half (m\<lparr>rand_calls := r\<rparr>) = half m"
  by (simp_all add: well_formed_def cells_def unvisited_def half_def passage_def in_bounds_def
      cell_state_def index_def)

lemma inv_ghost [simp]:
  "carve_inv (m\<lparr>entries := e\<rparr>) c = carve_inv m c" "carve_inv (m\<lparr>rand_calls := r\<rparr>) c = carve_inv m c"
  by (simp_all add: carve_inv_def)

lemma inv_carve:
  assumes "carve_inv m (x, y)" "in_bounds m (x + DX d) (y + DY d)"
    and "cell_state m (x + DX d) (y + DY d) = 0"
  shows "carve_inv (carve m x y d) (x + DX d, y + DY d)"
proof -
  let ?c = "(x, y)" and ?c' = "(x + DX d, y + DY d)"
  have well_formed: "well_formed m" and c: "in_bounds m x y"
    and t: "tree_on (insert ?c (cells m - unvisited m)) (half m)"
    using assms(1) by (auto simp: carve_inv_def cells_def)
  have c': "?c' \<in> unvisited m" "?c' \<noteq> ?c" "?c' \<in> cells m"
    using assms(2,3) neighbour_ne [of ?c d] by (auto simp: unvisited_def neighbour_def cells_def)
  have "insert ?c' (cells m - (unvisited m - {?c, ?c'})) =
        insert ?c' (insert ?c (cells m - unvisited m))"
    using c c' by (auto simp: cells_def)
  moreover have "tree_on (insert ?c' (insert ?c (cells m - unvisited m)))
        (insert (?c, ?c') (insert (?c', ?c) (half m)))"
    using t c' by (intro tree_on.grow) auto
  ultimately show ?thesis
    using well_formed c c'(3) assms
    by (simp add: carve_inv_def unvisited_carve half_carve)
qed

lemma post_refl: "carve_inv m c \<Longrightarrow> post 0 m c {} m"
  by (simp add: post_def)

lemma post_skip:
  assumes "post 0 m c D m'" "neighbour c d \<in> cells m \<longrightarrow> neighbour c d \<notin> unvisited m"
  shows "post 0 m c (insert d D) m'"
  using assms unfolding post_def by blast

lemma post_descend:
  assumes i: "carve_inv m (x, y)" and b: "in_bounds m (x + DX d) (y + DY d)"
    and z: "cell_state m (x + DX d) (y + DY d) = 0"
    and p3: "post 1 (carve m x y d) (x + DX d, y + DY d) UNIV m3"
  shows "carve_inv m3 (x, y)" "card (unvisited m3 - {(x, y)}) < card (unvisited m - {(x, y)})"
proof -
  let ?c = "(x, y)" and ?c' = "(x + DX d, y + DY d)"
  have well_formed: "well_formed m" and c: "in_bounds m x y" using i by (auto simp: carve_inv_def cells_def)
  have u2: "unvisited (carve m x y d) = unvisited m - {?c, ?c'}"
    using well_formed c b by (rule unvisited_carve)
  have c': "?c' \<in> unvisited m" "?c' \<noteq> ?c"
    using b z neighbour_ne [of ?c d] by (auto simp: unvisited_def neighbour_def)
  have u3: "unvisited m3 \<subseteq> unvisited m - {?c, ?c'}"
    using p3 u2 by (simp add: post_def)
  have dims: "width m3 = width m" "height m3 = height m"
    using p3 by (simp_all add: post_def)
  have cs: "cells m3 = cells m" using dims by (rule cells_eq)
  have i3: "carve_inv m3 ?c'" using p3 by (simp add: post_def)
  have "?c \<in> cells m3 - unvisited m3" "?c' \<in> cells m3 - unvisited m3"
    using u3 c b cs by (auto simp: cells_def)
  then have "insert ?c (cells m3 - unvisited m3) = insert ?c' (cells m3 - unvisited m3)"
    by auto
  then show "carve_inv m3 ?c"
    using i3 c cs by (simp add: carve_inv_def cells_def)
  have "unvisited m3 - {?c} \<subseteq> (unvisited m - {?c}) - {?c'}" using u3 by auto
  then have "card (unvisited m3 - {?c}) \<le> card ((unvisited m - {?c}) - {?c'})"
    using finite_unvisited [of m] by (intro card_mono) auto
  moreover have "card ((unvisited m - {?c}) - {?c'}) < card (unvisited m - {?c})"
    using c' finite_unvisited [of m] by (intro card_Diff1_less) auto
  ultimately show "card (unvisited m3 - {?c}) < card (unvisited m - {?c})" by simp
qed

lemma post_combine:
  assumes i: "carve_inv m (x, y)" and b: "in_bounds m (x + DX d) (y + DY d)"
    and z: "cell_state m (x + DX d) (y + DY d) = 0"
    and p3: "post 1 (carve m x y d) (x + DX d, y + DY d) UNIV m3"
    and p4: "post 0 m3 (x, y) D m4"
  shows "post 0 m (x, y) (insert d D) m4"
proof -
  let ?c = "(x, y)" and ?c' = "(x + DX d, y + DY d)"
  let ?u = "unvisited m" and ?u3 = "unvisited m3" and ?u4 = "unvisited m4"
  have well_formed: "well_formed m" and c: "in_bounds m x y" using i by (auto simp: carve_inv_def cells_def)
  have u2: "unvisited (carve m x y d) = ?u - {?c, ?c'}"
    using well_formed c b by (rule unvisited_carve)
  have c': "?c' \<in> ?u" "?c' \<noteq> ?c" "neighbour ?c d = ?c'"
    using b z neighbour_ne [of ?c d] by (auto simp: unvisited_def neighbour_def)
  have u3: "?u3 \<subseteq> ?u - {?c, ?c'}" using p3 u2 by (simp add: post_def)
  have u4: "?u4 \<subseteq> ?u3" using p4 by (simp add: post_def)
  have dims3: "width m3 = width m" "height m3 = height m" "seed m3 = seed m"
    using p3 by (simp_all add: post_def)
  have dims4: "width m4 = width m" "height m4 = height m" "seed m4 = seed m"
    using p4 dims3 by (simp_all add: post_def)
  have cs3: "cells m3 = cells m" using dims3(1,2) by (rule cells_eq)
  have A3: "\<And>a e. a \<in> ?u - {?c, ?c'} - ?u3 \<Longrightarrow> neighbour a e \<in> cells m \<Longrightarrow> neighbour a e \<notin> ?u3"
    using p3 u2 unfolding post_def by auto
  have B3: "\<And>e. neighbour ?c' e \<in> cells m \<Longrightarrow> neighbour ?c' e \<notin> ?u3"
    using p3 unfolding post_def by auto
  have A4: "\<And>a e. a \<in> ?u3 - ?u4 - {?c} \<Longrightarrow> neighbour a e \<in> cells m \<Longrightarrow> neighbour a e \<notin> ?u4"
    using p4 cs3 unfolding post_def by auto
  have B4: "\<And>e. e \<in> D \<Longrightarrow> neighbour ?c e \<in> cells m \<Longrightarrow> neighbour ?c e \<notin> ?u4"
    using p4 cs3 unfolding post_def by auto
  have closed: "\<forall>a \<in> ?u - ?u4 - {?c}. \<forall>e. neighbour a e \<in> cells m \<longrightarrow> neighbour a e \<notin> ?u4"
  proof (intro ballI allI impI)
    fix a e assume a: "a \<in> ?u - ?u4 - {?c}" and n: "neighbour a e \<in> cells m"
    consider "a = ?c'" | "a \<in> ?u - {?c, ?c'} - ?u3" | "a \<in> ?u3 - ?u4 - {?c}"
      using a by blast
    then show "neighbour a e \<notin> ?u4"
    proof cases
      case 1
      then show ?thesis using B3 [of e] n u4 by auto
    next
      case 2
      then show ?thesis using A3 [OF 2 n] u4 by auto
    next
      case 3
      show ?thesis using A4 [OF 3 n] .
    qed
  qed
  have dirs: "\<forall>e \<in> insert d D. neighbour ?c e \<in> cells m \<longrightarrow> neighbour ?c e \<notin> ?u4"
    using B4 c' u3 u4 by auto
  have e3: "entries m3 + card (?u3 - {?c'}) = entries m + card (?u - {?c, ?c'} - {?c'}) + 1"
    using p3 u2 by (simp add: post_def)
  have e4: "entries m4 + card (?u4 - {?c}) = entries m3 + card (?u3 - {?c})"
    using p4 by (simp add: post_def)
  have "?u3 - {?c'} = ?u3" "?u3 - {?c} = ?u3" using u3 by auto
  moreover have "?u - {?c, ?c'} - {?c'} = (?u - {?c}) - {?c'}" by auto
  moreover have "card ((?u - {?c}) - {?c'}) + 1 = card (?u - {?c})"
    using card.remove [of "?u - {?c}" ?c'] c' finite_unvisited [of m] by simp
  ultimately have ent: "entries m4 + card (?u4 - {?c}) = entries m + card (?u - {?c}) + 0"
    using e3 e4 by simp
  have r3: "rand_calls m3 + 4 * entries m = rand_calls m + 4 * entries m3"
    using p3 by (simp add: post_def)
  have r4: "rand_calls m4 + 4 * entries m3 = rand_calls m3 + 4 * entries m4"
    using p4 by (simp add: post_def)
  have rnd: "rand_calls m4 + 4 * entries m = rand_calls m + 4 * entries m4"
    using r3 r4 by arith
  have i4: "carve_inv m4 ?c" using p4 by (simp add: post_def)
  have sub: "?u4 \<subseteq> ?u" using u3 u4 by auto
  show ?thesis
    unfolding post_def using dims4 i4 sub closed dirs ent rnd by blast
qed

lemma carve_loop_post:
  assumes P: "\<And>x y m. carve_inv m (x, y) \<Longrightarrow> card (unvisited m - {(x, y)}) < n \<Longrightarrow>
                \<exists>m'. create_passage_from n g x y m = Inr m' \<and> post 1 m (x, y) UNIV m'"
  shows "carve_inv m (x, y) \<Longrightarrow> card (unvisited m - {(x, y)}) \<le> n \<Longrightarrow>
         \<exists>m'. carve_loop n g x y ds m = Inr m' \<and> post 0 m (x, y) (set ds) m'"
proof (induction ds arbitrary: m)
  case Nil
  then show ?case by (simp add: post_refl)
next
  case (Cons d ds)
  let ?c = "(x, y)" and ?c' = "(x + DX d, y + DY d)"
  have well_formed: "well_formed m" and c: "in_bounds m x y"
    using Cons.prems(1) by (auto simp: carve_inv_def cells_def)
  have nb: "neighbour ?c d = ?c'" by (simp add: neighbour_def)
  show ?case
  proof (cases "in_bounds m (x + DX d) (y + DY d) \<and> cell_state m (x + DX d) (y + DY d) = 0")
    case False
    have eq: "carve_loop n g x y (d # ds) m = carve_loop n g x y ds m"
    proof (cases "in_bounds m (x + DX d) (y + DY d)")
      case True
      then show ?thesis using False by (simp add: carve_loop_in [OF well_formed c True])
    next
      case False
      then show ?thesis by (rule carve_loop_out [OF no_wrap_in_bounds [OF well_formed c]])
    qed
    obtain m' where m': "carve_loop n g x y ds m = Inr m'" "post 0 m ?c (set ds) m'"
      using Cons.IH [OF Cons.prems] by blast
    have "neighbour ?c d \<in> cells m \<longrightarrow> neighbour ?c d \<notin> unvisited m"
      using False by (auto simp: nb cells_def unvisited_def)
    then have "post 0 m ?c (set (d # ds)) m'"
      using post_skip [OF m'(2)] by simp
    then show ?thesis using eq m'(1) by simp
  next
    case True
    then have b: "in_bounds m (x + DX d) (y + DY d)"
      and z: "cell_state m (x + DX d) (y + DY d) = 0" by simp_all
    let ?m2 = "carve m x y d"
    have i2: "carve_inv ?m2 ?c'" using Cons.prems(1) b z by (rule inv_carve)
    have c': "?c' \<in> unvisited m - {?c}"
      using b z neighbour_ne [of ?c d] by (auto simp: unvisited_def neighbour_def)
    have "unvisited ?m2 - {?c'} = (unvisited m - {?c}) - {?c'}"
      using unvisited_carve [OF well_formed c b] by auto
    moreover have "card ((unvisited m - {?c}) - {?c'}) < card (unvisited m - {?c})"
      using c' finite_unvisited [of m] by (intro card_Diff1_less) auto
    ultimately have "card (unvisited ?m2 - {?c'}) < n"
      using Cons.prems(2) by simp
    then obtain m3 where m3: "create_passage_from n g (x + DX d) (y + DY d) ?m2 = Inr m3"
      "post 1 ?m2 ?c' UNIV m3"
      using P [OF i2] by blast
    have i3: "carve_inv m3 ?c" and k3: "card (unvisited m3 - {?c}) < card (unvisited m - {?c})"
      using post_descend [OF Cons.prems(1) b z m3(2)] by simp_all
    have "card (unvisited m3 - {?c}) \<le> n" using k3 Cons.prems(2) by simp
    then obtain m4 where m4: "carve_loop n g x y ds m3 = Inr m4" "post 0 m3 ?c (set ds) m4"
      using Cons.IH [OF i3] by blast
    have "post 0 m ?c (set (d # ds)) m4"
      using post_combine [OF Cons.prems(1) b z m3(2) m4(2)] by simp
    moreover have "carve_loop n g x y (d # ds) m = Inr m4"
      using z m3(1) m4(1) by (simp add: carve_loop_in [OF well_formed c b])
    ultimately show ?thesis by blast
  qed
qed

lemma post_entry:
  assumes "post 0 (m\<lparr>entries := Suc (entries m), rand_calls := rand_calls m + 4\<rparr>) c D m'"
  shows "post 1 m c D m'"
  using assms unfolding post_def by simp

lemma create_passage_from_post:
  "carve_inv m (x, y) \<Longrightarrow> card (unvisited m - {(x, y)}) < n \<Longrightarrow>
   \<exists>m'. create_passage_from n g x y m = Inr m' \<and> post 1 m (x, y) UNIV m'"
proof (induction n arbitrary: x y m)
  case 0
  then show ?case by simp
next
  case (Suc n)
  let ?m1 = "m\<lparr>entries := Suc (entries m), rand_calls := rand_calls m + 4\<rparr>"
  obtain ds where ds: "shuffle g 0 ([N, S, E, W], m\<lparr>entries := Suc (entries m)\<rparr>) = (ds, ?m1)"
    "set ds = UNIV"
    using shuffle_directions [of g "m\<lparr>entries := Suc (entries m)\<rparr>"] by auto
  have i1: "carve_inv ?m1 (x, y)" using Suc.prems(1) by simp
  have k1: "card (unvisited ?m1 - {(x, y)}) \<le> n" using Suc.prems(2) by simp
  obtain m' where m': "carve_loop n g x y ds ?m1 = Inr m'" "post 0 ?m1 (x, y) (set ds) m'"
    using carve_loop_post [of n g ?m1 x y ds, OF Suc.IH i1 k1] by blast
  have "post 1 m (x, y) UNIV m'"
    using post_entry [OF m'(2)] ds(2) by simp
  moreover have "create_passage_from (Suc n) g x y m = Inr m'"
    using ds(1) m'(1) by simp
  ultimately show ?case by blast
qed

section \<open>The run from the origin\<close>

lemma zero_loop_nth:
  "0 \<le> i \<Longrightarrow> b \<le> int (length xs) \<Longrightarrow>
   \<exists>ys. zero_loop b i xs = Inr ys \<and> length ys = length xs \<and>
        (\<forall>k<length xs. ys ! k = (if i \<le> int k \<and> int k < b then 0 else xs ! k))"
proof (induction b i xs rule: zero_loop.induct)
  case (1 b i xs)
  show ?case
  proof (cases "i < b")
    case True
    then have r: "0 \<le> i \<and> i < int (length xs)" using "1.prems" by simp
    obtain ys where ys: "zero_loop b (i + 1) (xs[nat i := 0]) = Inr ys" "length ys = length xs"
      "\<forall>k<length xs. ys ! k =
         (if i + 1 \<le> int k \<and> int k < b then 0 else xs[nat i := 0] ! k)"
      using "1.IH" [OF True r] "1.prems" by auto
    have "ys ! k = (if i \<le> int k \<and> int k < b then 0 else xs ! k)" if "k < length xs" for k
    proof (cases "k = nat i")
      case True
      then show ?thesis using ys(3) that r \<open>i < b\<close> by simp
    next
      case False
      then have "int k \<noteq> i" using r by auto
      then show ?thesis using ys(3) that False by auto
    qed
    moreover have "zero_loop b i xs = Inr ys"
      using True r ys(1) by (subst zero_loop.simps) simp
    ultimately show ?thesis using ys(2) by blast
  next
    case False
    then have "zero_loop b i xs = Inr xs" by (subst zero_loop.simps) simp
    then show ?thesis using False by auto
  qed
qed

lemma zero_loop_all:
  assumes "b = int (length xs)"
  shows "zero_loop b 0 xs = Inr (replicate (nat b) 0)"
proof -
  obtain ys where ys: "zero_loop b 0 xs = Inr ys" "length ys = length xs"
    "\<forall>k<length xs. ys ! k = (if 0 \<le> int k \<and> int k < b then 0 else xs ! k)"
    using zero_loop_nth [of 0 b xs] assms by auto
  have "ys = replicate (nat b) 0"
    using ys(2,3) assms by (simp add: list_eq_iff_nth_eq)
  then show ?thesis using ys(1) by simp
qed

lemma zero_loop_none: "b \<le> 0 \<Longrightarrow> zero_loop b 0 xs = Inr xs"
  by (subst zero_loop.simps) simp

lemma malloc_ints_length:
  assumes "0 \<le> w * h" "w * h \<le> 2147483647"
  shows "int (length (malloc_ints e w h)) = w * h"
proof -
  define p where "p = w * h"
  have e: "4 * w * h = 4 * p" by (simp add: p_def)
  have p: "0 \<le> p" "p \<le> 2147483647" using assms by (simp_all add: p_def)
  then have "0 \<le> 4 * p" "4 * p < 18446744073709551616" by simp_all
  then have "(4 * p) mod 18446744073709551616 = 4 * p" by (rule mod_pos_pos_trivial)
  then have "int (length (malloc_ints e w h)) = p"
    unfolding malloc_ints_def e using p by simp
  then show ?thesis by (simp add: p_def)
qed

lemma malloc_ints_null:
  assumes "w * h < 0" "- 2147483648 \<le> w * h"
  shows "malloc_ints e w h = []"
proof -
  define p where "p = w * h"
  have e: "4 * w * h = 4 * p" by (simp add: p_def)
  have p: "p < 0" "- 2147483648 \<le> p" using assms by (simp_all add: p_def)
  then have "0 \<le> 4 * p + 18446744073709551616"
    "4 * p + 18446744073709551616 < 18446744073709551616" by simp_all
  then have "(4 * p + 18446744073709551616) mod 18446744073709551616 =
             4 * p + 18446744073709551616" by (rule mod_pos_pos_trivial)
  then have "(4 * p) mod 18446744073709551616 = 4 * p + 18446744073709551616"
    by simp
  then show ?thesis unfolding malloc_ints_def e using p by simp
qed

lemma Maze_blank:
  assumes "- 2147483648 \<le> w * h" "w * h \<le> 2147483647"
  shows "Maze e w h s = Inr (blank w h s)"
proof -
  have b: "int32 (w * h) = w * h" using assms by (rule int32_id)
  have "zero_loop (w * h) 0 (malloc_ints e w h) = Inr (replicate (nat (w * h)) 0)"
  proof (cases "0 \<le> w * h")
    case True
    then show ?thesis
      using zero_loop_all [of "w * h" "malloc_ints e w h"] malloc_ints_length [OF True assms(2)]
      by simp
  next
    case False
    then show ?thesis
      using malloc_ints_null [of w h e] assms(1) by (simp add: zero_loop_none)
  qed
  then show ?thesis by (simp add: Maze_def srand_def blank_def b)
qed

lemma BackTracker_blank:
  assumes "- 2147483648 \<le> w * h" "w * h \<le> 2147483647"
  shows "BackTracker n g e w h s = create_passage_from n g 0 0 (blank w h s)"
  by (simp add: BackTracker_def Maze_blank [OF assms])

lemma blank_fields [simp]:
  "width (blank w h s) = w" "height (blank w h s) = h" "seed (blank w h s) = s"
  "grid (blank w h s) = replicate (nat (w * h)) 0" "rand_seed (blank w h s) = s"
  "rand_calls (blank w h s) = 0" "entries (blank w h s) = 0"
  by (simp_all add: blank_def)

lemma blank_wf:
  "1 \<le> w \<Longrightarrow> 1 \<le> h \<Longrightarrow> w * h \<le> 2147483647 \<Longrightarrow> well_formed (blank w h s)"
  by (simp add: well_formed_def)

lemma blank_cell_state:
  assumes "1 \<le> w" "1 \<le> h" "w * h \<le> 2147483647" "in_bounds (blank w h s) x y"
  shows "cell_state (blank w h s) x y = 0"
proof -
  have "0 \<le> index (blank w h s) x y" "index (blank w h s) x y < w * h"
    using index_range [OF blank_wf [OF assms(1,2,3)] assms(4)] by simp_all
  then have "nat (index (blank w h s) x y) < nat (w * h)" by simp
  then show ?thesis by (simp add: cell_state_def)
qed

lemma blank_unvisited:
  "1 \<le> w \<Longrightarrow> 1 \<le> h \<Longrightarrow> w * h \<le> 2147483647 \<Longrightarrow>
   unvisited (blank w h s) = cells (blank w h s)"
  by (auto simp: unvisited_def cells_def blank_cell_state)

lemma blank_half:
  "1 \<le> w \<Longrightarrow> 1 \<le> h \<Longrightarrow> w * h \<le> 2147483647 \<Longrightarrow> half (blank w h s) = {}"
  by (auto simp: half_def passage_def blank_cell_state)

lemma blank_inv:
  "1 \<le> w \<Longrightarrow> 1 \<le> h \<Longrightarrow> w * h \<le> 2147483647 \<Longrightarrow> carve_inv (blank w h s) (0, 0)"
  using tree_on.single [of "(0::int, 0::int)"]
  by (simp add: carve_inv_def blank_wf blank_unvisited blank_half)
     (simp add: cells_def in_bounds_def)

lemma card_cells: "0 \<le> width m \<Longrightarrow> card (cells m) = nat (width m * height m)"
  by (simp add: cells_product card_cartesian_product nat_mult_distrib)

lemma closed_reaches_all:
  assumes root: "(0, 0) \<in> V"
    and closed: "\<And>a d. a \<in> V \<Longrightarrow> neighbour a d \<in> cells m \<Longrightarrow> neighbour a d \<in> V"
  shows "cells m \<subseteq> V"
proof -
  have row: "int i < width m \<Longrightarrow> 0 < height m \<Longrightarrow> (int i, 0) \<in> V" for i
  proof (induction i)
    case 0
    then show ?case using root by simp
  next
    case (Suc i)
    then have "(int i, 0) \<in> V" by simp
    moreover have "neighbour (int i, 0) E = (int (Suc i), 0)" by (simp add: neighbour_def)
    moreover have "(int (Suc i), 0) \<in> cells m" using Suc.prems by (simp add: cells_def in_bounds_def)
    ultimately show ?case using closed [of "(int i, 0)" E] by simp
  qed
  have col: "int i < width m \<Longrightarrow> int j < height m \<Longrightarrow> (int i, int j) \<in> V" for i j
  proof (induction j)
    case 0
    then show ?case using row [of i] by simp
  next
    case (Suc j)
    then have "(int i, int j) \<in> V" by simp
    moreover have "neighbour (int i, int j) S = (int i, int (Suc j))" by (simp add: neighbour_def)
    moreover have "(int i, int (Suc j)) \<in> cells m" using Suc.prems by (simp add: cells_def in_bounds_def)
    ultimately show ?case using closed [of "(int i, int j)" S] by simp
  qed
  show ?thesis
  proof
    fix c assume "c \<in> cells m"
    then obtain x y where c: "c = (x, y)" "0 \<le> x" "x < width m" "0 \<le> y" "y < height m"
      by (auto simp: cells_def in_bounds_def)
    then have "(int (nat x), int (nat y)) \<in> V" by (intro col) simp_all
    then show "c \<in> V" using c by simp
  qed
qed

lemma create_passage_from_root:
  assumes "1 \<le> w" "1 \<le> h" "w * h \<le> 2147483647" "nat (w * h) \<le> n"
  shows "\<exists>m. BackTracker n g e w h s = Inr m \<and>
             width m = w \<and> height m = h \<and> seed m = s \<and> well_formed m \<and>
             tree_on (cells m) (half m) \<and> entries m = nat (w * h) \<and>
             rand_calls m = 4 * nat (w * h)"
proof -
  let ?m0 = "blank w h s" and ?r = "(0::int, 0::int)"
  have i0: "carve_inv ?m0 ?r" using assms(1,2,3) by (rule blank_inv)
  have u0: "unvisited ?m0 = cells ?m0" using assms(1,2,3) by (rule blank_unvisited)
  have r: "?r \<in> cells ?m0" using assms(1,2) by (simp add: cells_def in_bounds_def)
  have k0: "card (cells ?m0) = nat (w * h)" using assms(1) by (simp add: card_cells)
  have "card (cells ?m0 - {?r}) < card (cells ?m0)"
    using r finite_cells [of ?m0] by (intro card_Diff1_less) auto
  then have "card (unvisited ?m0 - {?r}) < n" using u0 k0 assms(4) by simp
  then obtain m where m: "create_passage_from n g 0 0 ?m0 = Inr m" "post 1 ?m0 ?r UNIV m"
    using create_passage_from_post [OF i0] by blast
  have dims: "width m = w" "height m = h" "seed m = s" using m(2) by (simp_all add: post_def)
  have cs: "cells m = cells ?m0" using dims by (simp add: cells_eq)
  have i: "carve_inv m ?r" using m(2) by (simp add: post_def)
  let ?V = "insert ?r (cells m - unvisited m)"
  have closed: "neighbour a d \<in> ?V" if a: "a \<in> ?V" and n: "neighbour a d \<in> cells m" for a d
  proof (cases "a = ?r")
    case True
    then show ?thesis using m(2) n cs unfolding post_def by auto
  next
    case False
    then have "a \<in> unvisited ?m0 - unvisited m - {?r}" using a u0 cs by auto
    then show ?thesis using m(2) n cs unfolding post_def by auto
  qed
  have "cells m \<subseteq> ?V" by (rule closed_reaches_all) (use closed in auto)
  moreover have "?V \<subseteq> cells m" using r cs by auto
  ultimately have V: "?V = cells m" by blast
  then have t: "tree_on (cells m) (half m)" using i by (simp add: carve_inv_def)
  have "unvisited m - {?r} = {}" using V unvisited_sub [of m] by auto
  then have "card (unvisited m - {?r}) = 0" by (simp only: card.empty)
  moreover have "entries m + card (unvisited m - {?r}) = card (cells ?m0 - {?r}) + 1"
    using m(2) u0 by (simp add: post_def)
  moreover have "card (cells ?m0 - {?r}) + 1 = card (cells ?m0)"
    using card.remove [of "cells ?m0" ?r] r finite_cells [of ?m0] by simp
  ultimately have e: "entries m = nat (w * h)" using k0 by arith
  have "rand_calls m = 4 * entries m" using m(2) by (simp add: post_def)
  moreover have "0 \<le> w * h" using assms(1,2) by simp
  then have "BackTracker n g e w h s = create_passage_from n g 0 0 ?m0"
    using assms(3) by (intro BackTracker_blank) auto
  ultimately show ?thesis using m(1) dims i t e by (auto simp: carve_inv_def)
qed

section \<open>Consequences for the carved maze\<close>

lemma passage_symmetric:
  assumes t: "tree_on (cells m) (half m)"
  shows "passage m x y d \<longleftrightarrow> passage m (x + DX d) (y + DY d) (OPPOSITE d)"
proof -
  have fwd: "passage m (a + DX e) (b + DY e) (OPPOSITE e)" if p: "passage m a b e" for a b e
  proof -
    have "((a, b), neighbour (a, b) e) \<in> half m" using p by (auto simp: half_def)
    then have "(neighbour (a, b) e, (a, b)) \<in> half m" using tree_on_sym [OF t] by blast
    then obtain a' b' e' where q: "neighbour (a, b) e = (a', b')" "(a, b) = neighbour (a', b') e'"
      "passage m a' b' e'"
      by (auto simp: half_def)
    have "neighbour (a', b') e' = neighbour (a', b') (OPPOSITE e)"
      using q(1,2) neighbour_opposite [of "(a, b)" e] by simp
    then have "e' = OPPOSITE e" by (simp add: neighbour_inj)
    then show ?thesis using q(1,3) by (simp add: neighbour_def)
  qed
  show ?thesis
  proof
    assume "passage m x y d"
    then show "passage m (x + DX d) (y + DY d) (OPPOSITE d)" by (rule fwd)
  next
    assume "passage m (x + DX d) (y + DY d) (OPPOSITE d)"
    from fwd [OF this]
    have "passage m (x + DX d + DX (OPPOSITE d)) (y + DY d + DY (OPPOSITE d)) d" by simp
    moreover have "x + DX d + DX (OPPOSITE d) = x" "y + DY d + DY (OPPOSITE d) = y"
      by (cases d; simp)+
    ultimately show "passage m x y d" by simp
  qed
qed

lemma passages_half:
  assumes t: "tree_on (cells m) (half m)"
  shows "passages m = half m"
proof -
  have "(c, c') \<in> passages m \<longleftrightarrow> (c, c') \<in> half m" for c c'
  proof -
    obtain x y where c: "c = (x, y)" by (cases c)
    have "(c, c') \<in> passages m \<longleftrightarrow>
          (\<exists>d. c' = neighbour c d \<and> passage m x y d \<and> passage m (x + DX d) (y + DY d) (OPPOSITE d))"
      by (auto simp: passages_def c neighbour_def)
    also have "\<dots> \<longleftrightarrow> (\<exists>d. c' = neighbour c d \<and> passage m x y d)"
      using passage_symmetric [OF t] by blast
    also have "\<dots> \<longleftrightarrow> (c, c') \<in> half m"
      by (auto simp: half_def c)
    finally show ?thesis .
  qed
  then show ?thesis by auto
qed

lemma tree_spanning:
  assumes t: "tree_on (cells m) (half m)" and w: "1 \<le> width m" and h: "1 \<le> height m"
  shows "connected m" "int (card (edges m)) = width m * height m - 1" "no_cycles m"
proof -
  have ph: "passages m = half m" using t by (rule passages_half)
  show "connected m"
    unfolding connected_def ph using tree_on_connected [OF t] by blast
  have "Suc (card (edges m)) = nat (width m * height m)"
    unfolding edges_def ph using tree_on_card [OF t] w by (simp add: card_cells)
  moreover have "1 \<le> width m * height m" using mult_mono [of 1 "width m" 1 "height m"] w h by simp
  ultimately show "int (card (edges m)) = width m * height m - 1" by arith
  show "no_cycles m"
    unfolding no_cycles_def ph using tree_on_acyclic [OF t] by blast
qed

lemma passage_border:
  assumes t: "tree_on (cells m) (half m)" and p: "passage m x y d"
  shows "in_bounds m (x + DX d) (y + DY d)"
  using p passage_symmetric [OF t, of x y d] by (simp add: passage_def)

section \<open>The rendered rows\<close>

lemma test_or: "(v OR u) AND bit_of d \<noteq> 0 \<longleftrightarrow> v AND bit_of d \<noteq> 0 \<or> u AND bit_of d \<noteq> 0"
  unfolding test_bit by (simp add: bit_or_iff)

lemma draw_cell_glyphs:
  assumes wf: "well_formed m" and b: "in_bounds m i j"
    and e: "passage m i j E \<longrightarrow> i + 1 < width m"
  shows "draw_cell m i j = Inr [south_glyph m i j, east_glyph m i j]"
proof (cases "passage m i j E")
  case True
  then have b': "in_bounds m (i + 1) j" using e b by (simp add: in_bounds_def)
  have "0 \<le> i + 1" "i + 1 \<le> 2147483647"
    using b' well_formed_bounds(3) [OF wf b'] by (simp_all add: in_bounds_def)
  then have i1: "int32 (i + 1) = i + 1" by (intro int32_id) auto
  have "cell_state m i j AND bit_of E \<noteq> 0" using True by (simp add: passage_def)
  then show ?thesis
    using True b b'
    by (simp add: draw_cell_def i1 grid_read_in_bounds [OF wf b] grid_read_in_bounds [OF wf b']
        south_glyph_def east_glyph_def passage_def test_or del: bit_of.simps)
next
  case False
  then have "\<not> cell_state m i j AND bit_of E \<noteq> 0" using b by (simp add: passage_def)
  then show ?thesis
    using False b
    by (simp add: draw_cell_def grid_read_in_bounds [OF wf b]
        south_glyph_def east_glyph_def passage_def del: bit_of.simps)
qed

lemma draw_cols_glyphs:
  "well_formed m \<Longrightarrow> 0 \<le> j \<Longrightarrow> j < height m \<Longrightarrow>
   \<forall>x. passage m x j E \<longrightarrow> x + 1 < width m \<Longrightarrow> 0 \<le> i \<Longrightarrow>
   draw_cols m j i =
   Inr (concat (map (\<lambda>k. [south_glyph m k j, east_glyph m k j]) [i..width m - 1]))"
proof (induction m j i rule: draw_cols.induct)
  case (1 m j i)
  show ?case
  proof (cases "i < width m")
    case True
    have b: "in_bounds m i j" using True "1.prems" by (simp add: in_bounds_def)
    have c: "draw_cell m i j = Inr [south_glyph m i j, east_glyph m i j]"
      using "1.prems" b by (intro draw_cell_glyphs) auto
    have r: "draw_cols m j (i + 1) =
          Inr (concat (map (\<lambda>k. [south_glyph m k j, east_glyph m k j]) [i + 1..width m - 1]))"
      using "1.IH" [OF True c] "1.prems" by simp
    have "[i..width m - 1] = i # [i + 1..width m - 1]"
      using True by (simp add: upto_rec1)
    then show ?thesis
      using True c r by (subst draw_cols.simps) simp
  next
    case False
    then have "[i..width m - 1] = []" by simp
    then show ?thesis using False by (subst draw_cols.simps) simp
  qed
qed

lemma draw_row_glyphs:
  assumes "well_formed m" "0 \<le> j" "j < height m"
    and "\<forall>x. passage m x j E \<longrightarrow> x + 1 < width m"
  shows "draw_row m j = Inr (row_line m j)"
  using draw_cols_glyphs [OF assms, of 0] by (simp add: draw_row_def row_line_def)

lemma draw_rows_lines:
  "well_formed m \<Longrightarrow> \<forall>x y. passage m x y E \<longrightarrow> x + 1 < width m \<Longrightarrow> 0 \<le> j \<Longrightarrow>
   draw_rows m j = Inr (concat (map (row_line m) [j..height m - 1]))"
proof (induction m j rule: draw_rows.induct)
  case (1 m j)
  show ?case
  proof (cases "j < height m")
    case True
    have c: "draw_row m j = Inr (row_line m j)"
      using "1.prems" True by (intro draw_row_glyphs) auto
    have r: "draw_rows m (j + 1) = Inr (concat (map (row_line m) [j + 1..height m - 1]))"
      using "1.IH" [OF True c] "1.prems" by simp
    have "[j..height m - 1] = j # [j + 1..height m - 1]"
      using True by (simp add: upto_rec1)
    then show ?thesis
      using True c r by (subst draw_rows.simps) simp
  next
    case False
    then have "[j..height m - 1] = []" by simp
    then show ?thesis using False by (subst draw_rows.simps) simp
  qed
qed

lemma draw_lines:
  assumes "well_formed m" "\<forall>x y. passage m x y E \<longrightarrow> x + 1 < width m"
  shows "draw m =
         Inr ('' '' @ replicate (nat (int32 (int32 (2 * width m) - 1))) (CHR ''_'') @ endl @
              concat (map (row_line m) [0..height m - 1]) @
              '' width: '' @ show_int (width m) @ '', height: '' @ show_int (height m) @
              '', seed: '' @ show_int (seed m) @ endl)"
  using draw_rows_lines [OF assms, of 0] by (simp add: draw_def)

section \<open>Dependence on the random stream\<close>

lemma in_bounds_ghost [simp]:
  "in_bounds (m\<lparr>entries := e\<rparr>) = in_bounds m" "in_bounds (m\<lparr>rand_calls := r\<rparr>) = in_bounds m"
  by (simp_all add: in_bounds_def fun_eq_iff)

lemma no_wrap_ghost [simp]:
  "no_wrap (m\<lparr>entries := e\<rparr>) = no_wrap m" "no_wrap (m\<lparr>rand_calls := r\<rparr>) = no_wrap m"
  by (simp_all add: no_wrap_def fun_eq_iff)

lemma carve_loop_isolated:
  "no_wrap m x y \<Longrightarrow> \<forall>d. \<not> in_bounds m (x + DX d) (y + DY d) \<Longrightarrow>
   carve_loop n g x y ds m = Inr m"
  by (induction ds) (simp_all add: carve_loop_out)

lemma create_passage_from_isolated:
  assumes "no_wrap m x y" "\<forall>d. \<not> in_bounds m (x + DX d) (y + DY d)"
  shows "create_passage_from (Suc n) g x y m =
         Inr (m\<lparr>entries := Suc (entries m), rand_calls := rand_calls m + 4\<rparr>)"
  using assms by (simp add: shuffle_unfold carve_loop_isolated)

lemma grid_or_seed: "grid_or m k b = Inr m' \<Longrightarrow> rand_seed m' = rand_seed m"
  by (auto simp: grid_or_def split: if_splits)

lemma carve_loop_step:
  "carve_loop n g x y (d # ds) m =
     (case open_neighbour m x y d of
        Inl e \<Rightarrow> Inl e
      | Inr None \<Rightarrow> carve_loop n g x y ds m
      | Inr (Some m2) \<Rightarrow>
         (case create_passage_from n g (int32 (x + DX d)) (int32 (y + DY d)) m2 of
            Inl e \<Rightarrow> Inl e
          | Inr m3 \<Rightarrow> carve_loop n g x y ds m3))"
  unfolding carve_loop.simps open_neighbour_def Let_def
  by (simp split: sum.splits)

lemma open_neighbour_seed: "open_neighbour m x y d = Inr (Some m2) \<Longrightarrow> rand_seed m2 = rand_seed m"
  unfolding open_neighbour_def Let_def
  by (auto dest!: grid_or_seed split: if_splits sum.splits)

lemma carve_loop_seed:
  assumes IH: "\<And>x y m m'. create_passage_from n g x y m = Inr m' \<Longrightarrow> rand_seed m' = rand_seed m"
  shows "carve_loop n g x y ds m = Inr m' \<Longrightarrow> rand_seed m' = rand_seed m"
proof (induction ds arbitrary: m)
  case Nil
  then show ?case by simp
next
  case (Cons d ds)
  show ?case
  proof (cases "open_neighbour m x y d")
    case (Inl e)
    then show ?thesis using Cons.prems by (simp add: carve_loop_step)
  next
    case (Inr r)
    show ?thesis
    proof (cases r)
      case None
      then show ?thesis using Cons Inr by (simp add: carve_loop_step)
    next
      case (Some m2)
      then obtain m3 where m3: "create_passage_from n g (int32 (x + DX d)) (int32 (y + DY d)) m2 = Inr m3"
        "carve_loop n g x y ds m3 = Inr m'"
        using Cons.prems Inr by (auto simp: carve_loop_step split: sum.splits)
      have "rand_seed m3 = rand_seed m"
        using IH [OF m3(1)] open_neighbour_seed [of m x y d m2] Inr Some by simp
      then show ?thesis using Cons.IH [OF m3(2)] by simp
    qed
  qed
qed

lemma create_passage_from_seed:
  "create_passage_from n g x y m = Inr m' \<Longrightarrow> rand_seed m' = rand_seed m"
proof (induction n arbitrary: x y m m')
  case 0
  then show ?case by simp
next
  case (Suc n)
  from Suc.prems carve_loop_seed [of n g, OF Suc.IH]
  show ?case by (fastforce simp: shuffle_unfold)
qed

lemma fisher_yates_cong:
  assumes "\<forall>k. g1 (rand_seed m) k = g2 (rand_seed m) k"
  shows "fisher_yates g1 m n ds = fisher_yates g2 m n ds"
  using assms by (simp add: fisher_yates_def pick_def)

lemma carve_loop_cong:
  assumes IH: "\<And>x y m. \<forall>k. g1 (rand_seed m) k = g2 (rand_seed m) k \<Longrightarrow>
                 create_passage_from n g1 x y m = create_passage_from n g2 x y m"
  shows "\<forall>k. g1 (rand_seed m) k = g2 (rand_seed m) k \<Longrightarrow>
         carve_loop n g1 x y ds m = carve_loop n g2 x y ds m"
proof (induction ds arbitrary: m)
  case Nil
  then show ?case by simp
next
  case (Cons d ds)
  show ?case
  proof (cases "open_neighbour m x y d")
    case (Inl e)
    then show ?thesis by (simp add: carve_loop_step)
  next
    case (Inr r)
    show ?thesis
    proof (cases r)
      case None
      then show ?thesis using Cons Inr by (simp add: carve_loop_step)
    next
      case (Some m2)
      have s2: "rand_seed m2 = rand_seed m"
        using open_neighbour_seed [of m x y d m2] Inr Some by simp
      then have eq: "create_passage_from n g1 (int32 (x + DX d)) (int32 (y + DY d)) m2 =
                     create_passage_from n g2 (int32 (x + DX d)) (int32 (y + DY d)) m2"
        using IH [of m2] Cons.prems by simp
      show ?thesis
      proof (cases "create_passage_from n g1 (int32 (x + DX d)) (int32 (y + DY d)) m2")
        case (Inl e)
        then show ?thesis using eq Inr Some by (simp add: carve_loop_step)
      next
        case (Inr m3)
        then have "rand_seed m3 = rand_seed m" using create_passage_from_seed [OF Inr] s2 by simp
        then have tl: "carve_loop n g1 x y ds m3 = carve_loop n g2 x y ds m3"
          using Cons.IH [of m3] Cons.prems by simp
        have e2: "create_passage_from n g2 (int32 (x + DX d)) (int32 (y + DY d)) m2 = Inr m3"
          using eq Inr by simp
        have o: "open_neighbour m x y d = Inr (Some m2)"
          using \<open>open_neighbour m x y d = Inr r\<close> Some by simp
        show ?thesis
          by (simp add: carve_loop_step o Inr e2 tl)
      qed
    qed
  qed
qed

lemma create_passage_from_cong:
  "\<forall>k. g1 (rand_seed m) k = g2 (rand_seed m) k \<Longrightarrow>
   create_passage_from n g1 x y m = create_passage_from n g2 x y m"
proof (induction n arbitrary: x y m)
  case 0
  then show ?case by simp
next
  case (Suc n)
  let ?m1 = "m\<lparr>entries := Suc (entries m)\<rparr>"
  have "fisher_yates g1 ?m1 4 [N, S, E, W] = fisher_yates g2 ?m1 4 [N, S, E, W]"
    using Suc.prems by (intro fisher_yates_cong) simp
  moreover have "carve_loop n g1 x y ds (?m1\<lparr>rand_calls := rand_calls ?m1 + 4\<rparr>) =
        carve_loop n g2 x y ds (?m1\<lparr>rand_calls := rand_calls ?m1 + 4\<rparr>)" for ds
    using Suc.prems by (intro carve_loop_cong Suc.IH) simp_all
  ultimately show ?case by (simp add: shuffle_unfold)
qed

section \<open>Unchecked accesses and degenerate grids\<close>

lemma alias_cell:
  assumes wf: "well_formed m" and k: "0 \<le> k" "k < int (length (grid m))"
  shows "\<exists>x y. in_bounds m x y \<and> index m x y = k"
proof -
  have w: "0 < width m" and len: "k < width m * height m"
    using wf k by (auto simp: well_formed_def)
  have "k div width m < height m"
  proof (rule ccontr)
    assume "\<not> k div width m < height m"
    then have "width m * height m \<le> width m * (k div width m)"
      using w by (intro mult_left_mono) auto
    moreover have "width m * (k div width m) + k mod width m = k"
      by (rule mult_div_mod_eq)
    moreover have "0 \<le> k mod width m" using w by simp
    ultimately show False using len by linarith
  qed
  moreover have "0 \<le> k div width m" using k(1) w by (simp add: pos_imp_zdiv_nonneg_iff)
  moreover have "0 \<le> k mod width m" "k mod width m < width m" using w by simp_all
  ultimately have b: "in_bounds m (k mod width m) (k div width m)"
    by (simp add: in_bounds_def)
  have "index m (k mod width m) (k div width m) = k"
    by (simp add: index_eq [OF wf b])
  then show ?thesis using b by blast
qed

lemma index_wrap_row:
  assumes "well_formed m" "0 \<le> j" "j + 1 < height m"
  shows "index m (width m) j = index m 0 (j + 1)"
proof -
  have w: "1 \<le> width m" and p: "width m * height m \<le> 2147483647"
    using assms(1) by (simp_all add: well_formed_def)
  have b: "in_bounds m 0 (j + 1)" using assms(2,3) w by (simp add: in_bounds_def)
  have r: "0 \<le> j * width m" "(j + 1) * width m + 0 < width m * height m"
    using well_formed_bounds(2) [OF assms(1) b] assms(2) w by simp_all
  have s: "j * width m + width m = (j + 1) * width m" by (simp add: algebra_simps)
  have "j * width m \<le> 2147483647" using r p w s by linarith
  then have "int32 (j * width m) = j * width m" using r(1) by (intro int32_id) auto
  moreover have "int32 (j * width m + width m) = j * width m + width m"
    using r p w s by (intro int32_id) linarith+
  ultimately have "index m (width m) j = (j + 1) * width m" by (simp add: index_def s)
  then show ?thesis by (simp add: index_eq [OF assms(1) b])
qed

lemma grid_access_out_of_array:
  "\<not> (0 \<le> k \<and> k < int (length (grid m))) \<Longrightarrow>
   grid_read m k = Inl OutOfArray \<and> grid_or m k b = Inl OutOfArray"
  by (simp add: grid_read_def grid_or_def)

lemma nonpositive_isolated:
  "w \<le> 0 \<or> h \<le> 0 \<Longrightarrow> \<not> in_bounds (blank w h s) x y"
  by (auto simp: in_bounds_def)

lemma BackTracker_nonpositive:
  assumes "w \<le> 0 \<or> h \<le> 0"
    and "- 2147483648 < w" "w \<le> 2147483647" "- 2147483648 < h" "h \<le> 2147483647"
    and "- 2147483648 \<le> w * h" "w * h \<le> 2147483647"
  shows "BackTracker (Suc n) g e w h s =
         Inr \<lparr>width = w, height = h, seed = s, grid = replicate (nat (w * h)) 0,
              rand_seed = s, rand_calls = 4, entries = 1\<rparr>"
proof -
  have nw: "no_wrap (blank w h s) 0 0" using assms(2-5) by (simp add: no_wrap_def)
  have "create_passage_from (Suc n) g 0 0 (blank w h s) =
        Inr ((blank w h s)\<lparr>entries := Suc (entries (blank w h s)),
                            rand_calls := rand_calls (blank w h s) + 4\<rparr>)"
    using nonpositive_isolated [OF assms(1)] by (intro create_passage_from_isolated nw) simp
  then show ?thesis
    by (simp add: BackTracker_blank [OF assms(6,7)] blank_def)
qed

lemma single_cell_isolated: "\<not> in_bounds (blank 1 1 s) (0 + DX d) (0 + DY d)"
  by (cases d) (simp_all add: in_bounds_def)

lemma BackTracker_single_cell:
  "BackTracker (Suc n) g e 1 1 s =
   Inr \<lparr>width = 1, height = 1, seed = s, grid = [0], rand_seed = s, rand_calls = 4,
        entries = 1\<rparr>"
proof -
  have nw: "no_wrap (blank 1 1 s) 0 0" by (simp add: no_wrap_def)
  have "create_passage_from (Suc n) g 0 0 (blank 1 1 s) =
        Inr ((blank 1 1 s)\<lparr>entries := Suc (entries (blank 1 1 s)),
                            rand_calls := rand_calls (blank 1 1 s) + 4\<rparr>)"
    using single_cell_isolated by (intro create_passage_from_isolated nw) simp
  moreover have "BackTracker (Suc n) g e 1 1 s = create_passage_from (Suc n) g 0 0 (blank 1 1 s)"
    by (intro BackTracker_blank) simp_all
  ultimately show ?thesis by (simp add: blank_def)
qed

lemma show_int_digit:
  assumes "0 \<le> i" "i < 10"
  shows "show_int i = [''0123456789'' ! nat i]"
proof -
  have "nat i < 10" using assms by simp
  then show ?thesis using assms(1) by (simp add: show_int_def digits.simps [of "nat i"])
qed

lemma draw_single_cell:
  "draw \<lparr>width = 1, height = 1, seed = s, grid = [0], rand_seed = q, rand_calls = r,
         entries = e\<rparr> =
   Inr ('' _'' @ endl @ ''|_|'' @ endl @ '' width: 1, height: 1, seed: '' @ show_int s @ endl)"
proof -
  let ?m = "\<lparr>width = 1, height = 1, seed = s, grid = [0], rand_seed = q, rand_calls = r,
             entries = e\<rparr>"
  have wf: "well_formed ?m" by (simp add: well_formed_def)
  have np: "\<not> passage ?m x y d" for x y d
    by (auto simp: passage_def in_bounds_def cell_state_def index_def int32_def)
  have "draw ?m = Inr ('' '' @ replicate (nat (int32 (int32 (2 * width ?m) - 1))) (CHR ''_'') @ endl @
              concat (map (row_line ?m) [0..height ?m - 1]) @
              '' width: '' @ show_int (width ?m) @ '', height: '' @ show_int (height ?m) @
              '', seed: '' @ show_int (seed ?m) @ endl)"
    using wf np by (intro draw_lines) auto
  then show ?thesis
    by (simp add: row_line_def south_glyph_def east_glyph_def np show_int_digit int32_def)
qed

lemma main_single_cell:
  "main (Suc n) g e 1 1 s =
   Inr ('' _'' @ endl @ ''|_|'' @ endl @ '' width: 1, height: 1, seed: '' @ show_int s @ endl)"
  by (simp add: main_def BackTracker_single_cell draw_single_cell)

text \<open>
  Why the theorems ask for a product of the dimensions inside the range of \<^verbatim>\<open>int\<close>: for
  width and height 65536 the bound \<^verbatim>\<open>_width * _height\<close> of the zeroing loop wraps to 0, and
  the constructor leaves the \<open>2^32\<close> elements of the array as \<^verbatim>\<open>malloc\<close> returned them.
\<close>

lemma Maze_unzeroed:
  "Maze e 65536 65536 s =
     Inr \<lparr>width = 65536, height = 65536, seed = s, grid = malloc_ints e 65536 65536,
          rand_seed = s, rand_calls = 0, entries = 0\<rparr> \<and>
   length (malloc_ints e 65536 65536) = 4294967296 \<and>
   malloc_ints e 65536 65536 ! 0 = fresh e 0"
proof -
  have "int32 (65536 * 65536) = 0" by (simp add: int32_def)
  then have "Maze e 65536 65536 s =
     Inr \<lparr>width = 65536, height = 65536, seed = s, grid = malloc_ints e 65536 65536,
          rand_seed = s, rand_calls = 0, entries = 0\<rparr>"
    by (simp add: Maze_def srand_def zero_loop_none)
  moreover have "length (malloc_ints e 65536 65536) = 4294967296"
    by (simp add: malloc_ints_def)
  moreover have "malloc_ints e 65536 65536 ! 0 = fresh e 0"
    by (simp add: malloc_ints_def)
  ultimately show ?thesis by simp
qed

lemma fisher_yates_4:
  "fisher_yates g m 4 ds =
   swap_elems (swap_elems (swap_elems (swap_elems ds 0 (pick g m 0)) 1 (pick g m 1)) 2
     (pick g m 2)) 3 (pick g m 3)"
proof -
  have "[0..<4] = [0, 1, 2, 3::nat]" by (simp add: upt_rec)
  then show ?thesis by (simp add: fisher_yates_def del: One_nat_def)
qed

section \<open>An evaluated run\<close>

text \<open>
  The run for width 2, height 2 and seed 7 with the sample generator, from any state of
  the process: the four shuffles give the orders W N S E, W N S E, W E N S, W N S E and
  the run carves (0,0) - (0,1) - (1,1) - (1,0).
\<close>

lemma run_2x2: "BackTracker 4 sample_rand e 2 2 7 = Inr carved_2x2"
proof -
  have sw: "swap_elems xs i r = xs[i := xs ! r, r := xs ! i]" for xs :: "direction list" and i r
    by (simp add: swap_elems_def)
  have r: "replicate 4 (0::int) = [0, 0, 0, 0]" by (simp add: eval_nat_numeral)
  have "BackTracker n g e 2 2 7 = create_passage_from n g 0 0 (blank 2 2 7)" for n g
    by (intro BackTracker_blank) simp_all
  then have "BackTracker (Suc (Suc (Suc (Suc 0)))) sample_rand e 2 2 7 = Inr carved_2x2"
    by (simp add: r carved_2x2_def blank_def shuffle_unfold fisher_yates_4 pick_def
        sample_rand_def sw carve_loop.simps grid_read_def grid_or_def index_def int32_def
        Let_def)
  moreover have "(4::nat) = Suc (Suc (Suc (Suc 0)))" by simp
  ultimately show ?thesis by (simp only:)
qed

section \<open>The claims\<close>

text \<open>
  In the theorems below \<open>g\<close> is any generator and \<open>e\<close> any state of the process before
  the constructor runs (state of the C library's generator, contents of fresh memory).
  Where a theorem needs the product \<open>w * h\<close> to be a value of type \<^verbatim>\<open>int\<close>, it says so:
  beyond that range the products \<^verbatim>\<open>_width * _height\<close> and \<^verbatim>\<open>y * _width + x\<close> of the program
  overflow.
\<close>

text \<open>
  C1. For every width \<open>w \<ge> 1\<close> and height \<open>h \<ge> 1\<close> with \<open>w * h \<le> 2147483647\<close> (the number of
  cells is a value of type \<^verbatim>\<open>int\<close>) and every seed, the run of the \<^verbatim>\<open>BackTracker\<close>
  constructor (which carves from (0,0)) returns, given room for \<open>w * h\<close> nested calls, and
  leaves a passage graph on the \<open>w * h\<close> cells of the grid that is connected, has exactly
  \<open>w * h - 1\<close> edges and has no cycle: a spanning tree.
\<close>

theorem carved_maze_is_spanning_tree:
  assumes "1 \<le> w" "1 \<le> h" "w * h \<le> 2147483647" "nat (w * h) \<le> n"
  shows "\<exists>m. BackTracker n g e w h s = Inr m \<and> width m = w \<and> height m = h \<and>
             connected m \<and> int (card (edges m)) = w * h - 1 \<and> no_cycles m"
proof -
  obtain m where m: "BackTracker n g e w h s = Inr m"
    "width m = w" "height m = h" "tree_on (cells m) (half m)"
    using create_passage_from_root [OF assms] by blast
  have "connected m" "int (card (edges m)) = w * h - 1" "no_cycles m"
    using tree_spanning [OF m(4)] m(2,3) assms(1,2) by simp_all
  then show ?thesis using m(1,2,3) by simp
qed

theorem carved_maze_is_spanning_tree_witness:
  "(1::int) \<le> 2 \<and> (1::int) \<le> 2 \<and> (2::int) * 2 \<le> 2147483647 \<and> nat (2 * 2) \<le> 4 \<and>
   BackTracker 4 sample_rand used_env 2 2 7 = Inr carved_2x2 \<and>
   connected carved_2x2 \<and> int (card (edges carved_2x2)) = 2 * 2 - 1 \<and> no_cycles carved_2x2"
  using carved_maze_is_spanning_tree [of 2 2 4 sample_rand used_env 7] run_2x2 [of used_env]
  by simp

text \<open>
  C2, as the code has it. In every invocation of \<^verbatim>\<open>create_passage_from\<close> the list
  \<open>[N, S, E, W]\<close> is shuffled by the loop over the index \<open>i\<close> from 0 to 3 (four rounds,
  not three): round \<open>i\<close> takes the next value \<open>v\<close> of the random stream, sets
  \<open>r = i + v mod (4 - i)\<close>, which lies between \<open>i\<close> and 3, and swaps the elements at
  \<open>i\<close> and \<open>r\<close>. Four values of the stream are consumed per shuffle, in that order; the
  fourth round swaps the last element with itself.
\<close>

theorem shuffle_four_rounds:
  "shuffle g 0 (ds, m) = (fisher_yates g m 4 ds, m\<lparr>rand_calls := rand_calls m + 4\<rparr>) \<and>
   create_passage_from (Suc n) g x y m =
     carve_loop n g x y (fisher_yates g (m\<lparr>entries := Suc (entries m)\<rparr>) 4 [N, S, E, W])
       (m\<lparr>entries := Suc (entries m), rand_calls := rand_calls m + 4\<rparr>) \<and>
   (\<forall>i<4. i \<le> pick g m i \<and> pick g m i \<le> 3)"
  by (simp add: shuffle_unfold pick_range)

theorem shuffle_four_rounds_witness:
  "shuffle sample_rand 0 ([N, S, E, W], blank 2 2 7) =
     ([W, N, S, E], (blank 2 2 7)\<lparr>rand_calls := 4\<rparr>) \<and>
   pick sample_rand (blank 2 2 7) 0 = 3 \<and> pick sample_rand (blank 2 2 7) 1 = 3 \<and>
   pick sample_rand (blank 2 2 7) 2 = 3 \<and> pick sample_rand (blank 2 2 7) 3 = 3"
proof -
  have p: "pick sample_rand (blank 2 2 7) 0 = 3" "pick sample_rand (blank 2 2 7) 1 = 3"
    "pick sample_rand (blank 2 2 7) 2 = 3" "pick sample_rand (blank 2 2 7) 3 = 3"
    by (simp_all add: pick_def sample_rand_def)
  have s: "swap_elems [N, S, E, W] 0 3 = [W, S, E, N]" "swap_elems [W, S, E, N] 1 3 = [W, N, E, S]"
    "swap_elems [W, N, E, S] 2 3 = [W, N, S, E]" "swap_elems [W, N, S, E] 3 3 = [W, N, S, E]"
    by (simp_all add: swap_elems_def eval_nat_numeral)
  have "fisher_yates sample_rand (blank 2 2 7) 4 [N, S, E, W] = [W, N, S, E]"
    by (simp only: fisher_yates_4 p s)
  then show ?thesis
    using shuffle_four_rounds [of sample_rand "[N, S, E, W]" "blank 2 2 7"] p by simp
qed

text \<open>
  C2 as stated (three rounds, exactly three draws per shuffle) fails: the shuffle of the
  first invocation of the run for width 2, height 2 and seed 7 has consumed four values
  of the stream, not three.
\<close>

theorem shuffle_three_draws_counterexample:
  "rand_calls (snd (shuffle sample_rand 0 ([N, S, E, W], blank 2 2 7))) \<noteq>
   rand_calls (blank 2 2 7) + 3"
  by (simp add: shuffle_unfold)

text \<open>
  C3. Take two complete runs with the same width, height and seed, the product
  \<open>w * h\<close> being a value of type \<^verbatim>\<open>int\<close>. The runs may start in different states of the
  process: the generator of the C library may have been seeded and used differently
  before, and the memory handed out by \<^verbatim>\<open>malloc\<close> may hold different values. If the two
  generators give the same stream for the seed, the runs end in the same result: the
  same object (in particular the same cell array), or the same failure, and the same
  rendered text. The constructor calls \<^verbatim>\<open>srand\<close> before the first \<^verbatim>\<open>rand()\<close> and writes 0 to
  every element of the array before the first read, so nothing of the earlier state is
  left.
\<close>

theorem runs_deterministic:
  assumes "- 2147483648 \<le> w * h" "w * h \<le> 2147483647" "\<forall>k. g1 s k = g2 s k"
  shows "BackTracker n g1 e1 w h s = BackTracker n g2 e2 w h s \<and>
         main n g1 e1 w h s = main n g2 e2 w h s"
proof -
  have "create_passage_from n g1 0 0 (blank w h s) = create_passage_from n g2 0 0 (blank w h s)"
    using assms(3) by (intro create_passage_from_cong) simp
  then have "BackTracker n g1 e1 w h s = BackTracker n g2 e2 w h s"
    by (simp add: BackTracker_blank [OF assms(1,2)])
  then show ?thesis by (simp add: main_def)
qed

theorem runs_deterministic_witness:
  "- 2147483648 \<le> (2::int) * 2 \<and> (2::int) * 2 \<le> 2147483647 \<and>
   (\<forall>k. sample_rand 7 k = (\<lambda>s k. if s = 7 then sample_rand s k else 0) 7 k) \<and>
   prior_seed clean_env \<noteq> prior_seed used_env \<and> fresh clean_env 0 \<noteq> fresh used_env 0 \<and>
   BackTracker 4 sample_rand clean_env 2 2 7 = Inr carved_2x2 \<and>
   BackTracker 4 (\<lambda>s k. if s = 7 then sample_rand s k else 0) used_env 2 2 7 = Inr carved_2x2 \<and>
   main 4 sample_rand clean_env 2 2 7 =
     main 4 (\<lambda>s k. if s = 7 then sample_rand s k else 0) used_env 2 2 7"
  using runs_deterministic [of 2 2 sample_rand 7
      "\<lambda>s k. if s = 7 then sample_rand s k else 0" 4 clean_env used_env]
    run_2x2 [of clean_env]
  by (simp add: clean_env_def used_env_def)

text \<open>
  C4. After carving a grid of width \<open>w \<ge> 1\<close> and height \<open>h \<ge> 1\<close> with
  \<open>w * h \<le> 2147483647\<close>, for every cell (x, y) of the grid and every direction \<open>d\<close>: the
  cell has the passage bit for \<open>d\<close> set if and only if its neighbour in direction \<open>d\<close> is
  a cell of the grid that has the bit of the opposite direction set.
\<close>

theorem carved_passages_symmetric:
  assumes "1 \<le> w" "1 \<le> h" "w * h \<le> 2147483647" "nat (w * h) \<le> n"
  shows "\<exists>m. BackTracker n g e w h s = Inr m \<and>
             (\<forall>x y d. in_bounds m x y \<longrightarrow>
                (passage m x y d \<longleftrightarrow> passage m (x + DX d) (y + DY d) (OPPOSITE d)))"
proof -
  obtain m where m: "BackTracker n g e w h s = Inr m" "tree_on (cells m) (half m)"
    using create_passage_from_root [OF assms] by blast
  show ?thesis
    using m(1) passage_symmetric [OF m(2)] by simp
qed

theorem carved_passages_symmetric_witness:
  "(1::int) \<le> 2 \<and> (1::int) \<le> 2 \<and> (2::int) * 2 \<le> 2147483647 \<and> nat (2 * 2) \<le> 4 \<and>
   BackTracker 4 sample_rand used_env 2 2 7 = Inr carved_2x2 \<and> in_bounds carved_2x2 0 1 \<and>
   passage carved_2x2 0 1 E = passage carved_2x2 (0 + DX E) (1 + DY E) (OPPOSITE E) \<and>
   passage carved_2x2 0 1 W = passage carved_2x2 (0 + DX W) (1 + DY W) (OPPOSITE W)"
proof -
  obtain m where m: "BackTracker 4 sample_rand used_env 2 2 7 = Inr m"
    and sym: "\<forall>x y d. in_bounds m x y \<longrightarrow>
                (passage m x y d \<longleftrightarrow> passage m (x + DX d) (y + DY d) (OPPOSITE d))"
    using carved_passages_symmetric [of 2 2 4 sample_rand used_env 7] by auto
  have eq: "m = carved_2x2" using m run_2x2 [of used_env] by simp
  have ib: "in_bounds carved_2x2 0 1" by (simp add: in_bounds_def carved_2x2_def)
  show ?thesis
    using sym [rule_format, of 0 1 E] sym [rule_format, of 0 1 W] ib run_2x2 [of used_env]
    unfolding eq by simp
qed

text \<open>
  C5, as the code has it. A cell is read and written as \<^verbatim>\<open>_grid[index(x,y)]\<close> with
  \<open>index(x,y) = y * width + x\<close> and no bounds check, on a grid of \<open>width * height\<close> cells
  (a value of type \<^verbatim>\<open>int\<close>). For coordinates inside the grid the access succeeds and
  distinct cells have distinct indices. For coordinates (x, y) outside the grid nothing
  is rejected: either the access leaves the array (undefined behaviour, the model's
  \<open>OutOfArray\<close>), or the read returns the state of a cell of the grid other than (x, y)
  and the write sets the bit in that cell. The second case occurs in every grid with at
  least two rows: the coordinates \<open>(width, j)\<close>, one step East of the last column of a row
  \<open>j\<close> that is not the last row, wrap to the cell \<open>(0, j + 1)\<close>.
\<close>

theorem cell_access_unchecked:
  assumes "well_formed m"
  shows "(in_bounds m x y \<longrightarrow>
            grid_read m (index m x y) = Inr (cell_state m x y) \<and>
            grid_or m (index m x y) b = Inr (set_or m x y b)) \<and>
         (in_bounds m x y \<longrightarrow> in_bounds m x' y' \<longrightarrow> index m x y = index m x' y' \<longrightarrow>
            x = x' \<and> y = y') \<and>
         (\<not> in_bounds m x y \<longrightarrow>
            (grid_read m (index m x y) = Inl OutOfArray \<and>
             grid_or m (index m x y) b = Inl OutOfArray) \<or>
            (\<exists>u v. in_bounds m u v \<and> (u, v) \<noteq> (x, y) \<and>
                   grid_read m (index m x y) = Inr (cell_state m u v) \<and>
                   grid_or m (index m x y) b = Inr (set_or m u v b))) \<and>
         (0 \<le> j \<longrightarrow> j + 1 < height m \<longrightarrow>
            \<not> in_bounds m (width m) j \<and>
            grid_read m (index m (width m) j) = Inr (cell_state m 0 (j + 1)) \<and>
            grid_or m (index m (width m) j) b = Inr (set_or m 0 (j + 1) b))"
proof (intro conjI impI)
  assume "in_bounds m x y"
  then show "grid_read m (index m x y) = Inr (cell_state m x y)"
    and "grid_or m (index m x y) b = Inr (set_or m x y b)"
    using assms by (simp_all add: grid_read_in_bounds grid_or_in_bounds)
next
  assume "in_bounds m x y" "in_bounds m x' y'" "index m x y = index m x' y'"
  then show "x = x'" "y = y'"
    using index_inj [of m x y x' y'] assms by simp_all
next
  assume out: "\<not> in_bounds m x y"
  show "(grid_read m (index m x y) = Inl OutOfArray \<and>
         grid_or m (index m x y) b = Inl OutOfArray) \<or>
        (\<exists>u v. in_bounds m u v \<and> (u, v) \<noteq> (x, y) \<and>
               grid_read m (index m x y) = Inr (cell_state m u v) \<and>
               grid_or m (index m x y) b = Inr (set_or m u v b))"
  proof (cases "0 \<le> index m x y \<and> index m x y < int (length (grid m))")
    case True
    then obtain u v where uv: "in_bounds m u v" "index m u v = index m x y"
      using alias_cell [OF assms, of "index m x y"] by blast
    have "(u, v) \<noteq> (x, y)" using uv(1) out by auto
    moreover have "grid_read m (index m x y) = Inr (cell_state m u v)"
      using grid_read_in_bounds [OF assms uv(1)] uv(2) by simp
    moreover have "grid_or m (index m x y) b = Inr (set_or m u v b)"
      using grid_or_in_bounds [OF assms uv(1), of b] uv(2) by simp
    ultimately show ?thesis using uv(1) by blast
  next
    case False
    then show ?thesis using grid_access_out_of_array [of "index m x y" m b] by blast
  qed
next
  assume j: "0 \<le> j" "j + 1 < height m"
  have w: "1 \<le> width m" using assms by (simp add: well_formed_def)
  show "\<not> in_bounds m (width m) j" by (simp add: in_bounds_def)
  have b: "in_bounds m 0 (j + 1)" using j w by (simp add: in_bounds_def)
  have eq: "index m (width m) j = index m 0 (j + 1)"
    using assms j by (rule index_wrap_row)
  show "grid_read m (index m (width m) j) = Inr (cell_state m 0 (j + 1))"
    unfolding eq using assms b by (rule grid_read_in_bounds)
  show "grid_or m (index m (width m) j) b = Inr (set_or m 0 (j + 1) b)"
    unfolding eq using assms b by (rule grid_or_in_bounds)
qed

theorem cell_access_unchecked_witness:
  "well_formed (blank 2 2 0) \<and> in_bounds (blank 2 2 0) 1 1 \<and>
   grid_read (blank 2 2 0) (index (blank 2 2 0) 1 1) = Inr (cell_state (blank 2 2 0) 1 1) \<and>
   (0::int) \<le> 0 \<and> 0 + 1 < height (blank 2 2 0) \<and>
   \<not> in_bounds (blank 2 2 0) (width (blank 2 2 0)) 0 \<and>
   grid_read (blank 2 2 0) (index (blank 2 2 0) (width (blank 2 2 0)) 0) =
     Inr (cell_state (blank 2 2 0) 0 (0 + 1)) \<and>
   grid_or (blank 2 2 0) (index (blank 2 2 0) (width (blank 2 2 0)) 0) 4 =
     Inr (set_or (blank 2 2 0) 0 (0 + 1) 4)"
proof -
  have wf: "well_formed (blank 2 2 0)" by (simp add: blank_wf)
  have ib: "in_bounds (blank 2 2 0) 1 1" by (simp add: in_bounds_def)
  have j: "(0::int) \<le> 0" "0 + 1 < height (blank 2 2 0)" by simp_all
  note t = cell_access_unchecked [OF wf, where x = 1 and y = 1 and b = 4 and x' = 0 and y' = 0
      and j = 0]
  have a: "grid_read (blank 2 2 0) (index (blank 2 2 0) 1 1) = Inr (cell_state (blank 2 2 0) 1 1)"
    using t ib by (elim conjE) (erule (1) impE, elim conjE)
  have c: "\<not> in_bounds (blank 2 2 0) (width (blank 2 2 0)) 0 \<and>
    grid_read (blank 2 2 0) (index (blank 2 2 0) (width (blank 2 2 0)) 0) =
      Inr (cell_state (blank 2 2 0) 0 (0 + 1)) \<and>
    grid_or (blank 2 2 0) (index (blank 2 2 0) (width (blank 2 2 0)) 0) 4 =
      Inr (set_or (blank 2 2 0) 0 (0 + 1) 4)"
    using t j by (elim conjE) (erule (1) impE, erule (1) impE)
  show ?thesis using wf ib a j c by (elim conjE, intro conjI) assumption+
qed

text \<open>
  C5 as stated fails: on the 2 by 2 grid that the constructor builds, the coordinates
  (2, 0) are outside the grid, yet reading there raises no error and returns the state
  of cell (0, 1), whose flat index is the same, and the write sets a bit of that cell.
\<close>

theorem out_of_bounds_access_counterexample:
  "Maze clean_env 2 2 0 = Inr (blank 2 2 0) \<and>
   \<not> in_bounds (blank 2 2 0) 2 0 \<and>
   index (blank 2 2 0) 2 0 = index (blank 2 2 0) 0 1 \<and>
   grid_read (blank 2 2 0) (index (blank 2 2 0) 2 0) = Inr 0 \<and>
   grid_or (blank 2 2 0) (index (blank 2 2 0) 2 0) (bit_of E) =
     Inr ((blank 2 2 0)\<lparr>grid := [0, 0, 4, 0]\<rparr>)"
proof -
  have "Maze clean_env 2 2 0 = Inr (blank 2 2 0)" by (intro Maze_blank) simp_all
  then show ?thesis
    by (simp add: in_bounds_def index_def int32_def grid_read_def grid_or_def blank_def
        eval_nat_numeral)
qed

text \<open>
  C6, as the code has it. A grid with non-positive width or height is not rejected. For
  dimensions above the least value of \<^verbatim>\<open>int\<close> whose product is a value of type \<^verbatim>\<open>int\<close>,
  the constructor stores the dimensions, allocates the array and zeroes \<open>width * height\<close>
  cells (none when the product is not positive) without any check, and carving from
  (0,0) then returns after its first entry, having found no neighbour inside the grid
  and touched no cell.
\<close>

theorem nonpositive_dimensions_accepted:
  assumes "w \<le> 0 \<or> h \<le> 0"
    and "- 2147483648 < w" "w \<le> 2147483647" "- 2147483648 < h" "h \<le> 2147483647"
    and "- 2147483648 \<le> w * h" "w * h \<le> 2147483647"
  shows "BackTracker (Suc n) g e w h s =
         Inr \<lparr>width = w, height = h, seed = s, grid = replicate (nat (w * h)) 0,
              rand_seed = s, rand_calls = 4, entries = 1\<rparr>"
  using assms by (rule BackTracker_nonpositive)

theorem nonpositive_dimensions_accepted_witness:
  "((-2::int) \<le> 0 \<or> (-3::int) \<le> 0) \<and>
   - 2147483648 < (-2::int) \<and> (-2::int) \<le> 2147483647 \<and>
   - 2147483648 < (-3::int) \<and> (-3::int) \<le> 2147483647 \<and>
   - 2147483648 \<le> (-2::int) * (-3) \<and> (-2::int) * (-3) \<le> 2147483647 \<and>
   BackTracker (Suc 0) sample_rand used_env (-2) (-3) 7 =
     Inr \<lparr>width = -2, height = -3, seed = 7, grid = [0, 0, 0, 0, 0, 0],
          rand_seed = 7, rand_calls = 4, entries = 1\<rparr>"
  using nonpositive_dimensions_accepted [of "-2" "-3" 0 sample_rand used_env 7]
  by (simp add: eval_nat_numeral)

text \<open>
  C6 as stated fails: with width 0 and height 3 the constructor and the carving run
  complete without any error.
\<close>

theorem invalid_dimension_counterexample:
  "BackTracker 1 sample_rand clean_env 0 3 7 =
     Inr \<lparr>width = 0, height = 3, seed = 7, grid = [], rand_seed = 7, rand_calls = 4,
          entries = 1\<rparr>"
  using BackTracker_nonpositive [of 0 3 0 sample_rand clean_env 7] by simp

text \<open>
  C7, as the code has it. For width 1 and height 1 and any seed, carving enters only
  cell (0,0) and opens no passage (the state of the single cell stays 0), and the
  rendered text is exactly three lines: \<open>" _"\<close>, \<open>"|_|"\<close> and the metadata line
  \<open>" width: 1, height: 1, seed: <S>"\<close>, which starts with one space.
\<close>

theorem single_cell_maze:
  "BackTracker (Suc n) g e 1 1 s =
     Inr \<lparr>width = 1, height = 1, seed = s, grid = [0], rand_seed = s, rand_calls = 4,
          entries = 1\<rparr> \<and>
   main (Suc n) g e 1 1 s =
     Inr ('' _'' @ endl @ ''|_|'' @ endl @
          '' width: 1, height: 1, seed: '' @ show_int s @ endl)"
  by (simp add: BackTracker_single_cell main_single_cell)

theorem single_cell_maze_witness:
  "BackTracker 1 sample_rand used_env 1 1 (-12) =
     Inr \<lparr>width = 1, height = 1, seed = -12, grid = [0], rand_seed = -12, rand_calls = 4,
          entries = 1\<rparr> \<and>
   main 1 sample_rand used_env 1 1 (-12) =
     Inr ('' _'' @ endl @ ''|_|'' @ endl @ '' width: 1, height: 1, seed: -12'' @ endl)"
proof -
  have "digits 12 = ''12''" by (simp add: digits.simps [of 12] digits.simps [of "Suc 0"])
  then have "show_int (-12) = ''-12''" by (simp add: show_int_def)
  then show ?thesis using single_cell_maze [of 0 sample_rand used_env "-12"] by simp
qed

text \<open>
  C7 as stated fails on the metadata line: the program prints a space before
  \<open>width\<close>.
\<close>

theorem single_cell_metadata_counterexample:
  "main 1 sample_rand clean_env 1 1 0 \<noteq>
     Inr ('' _'' @ endl @ ''|_|'' @ endl @ ''width: 1, height: 1, seed: 0'' @ endl)"
  using main_single_cell [of 0 sample_rand clean_env 0] by (simp add: endl_def)

text \<open>
  C8. In every row line of the rendered text of a grid of \<open>width * height\<close> cells (a value
  of type \<^verbatim>\<open>int\<close>), for each cell from left to right, the second character of the cell
  is: when the cell has an open East passage, a space if the cell or its East neighbour
  has an open South passage and an underscore otherwise; when the cell has no East
  passage, the character \<open>|\<close>. The East neighbour exists whenever it is looked at if no
  cell of the last column has its East bit set, which holds for every carved maze.
\<close>

theorem draw_row_east_rule:
  assumes "well_formed m" "0 \<le> j" "j < height m"
    and "\<forall>x. passage m x j E \<longrightarrow> x + 1 < width m"
  shows "draw_row m j = Inr (row_line m j)"
  using assms by (rule draw_row_glyphs)

theorem draw_row_east_rule_witness:
  "well_formed carved_2x2 \<and> draw_row carved_2x2 1 = Inr (''|___|'' @ endl)"
proof -
  let ?m = carved_2x2
  have wf: "well_formed ?m" by (simp add: well_formed_def carved_2x2_def)
  have d: "width ?m = 2" "height ?m = 2" by (simp_all add: carved_2x2_def)
  have c: "cell_state ?m 0 1 = 5" "cell_state ?m 1 1 = 9"
    by (simp_all add: cell_state_def index_def int32_def carved_2x2_def)
  have e: "\<forall>x. passage ?m x 1 E \<longrightarrow> x + 1 < width ?m"
  proof (intro allI impI)
    fix x assume p: "passage ?m x 1 E"
    then have "x = 0 \<or> x = 1" by (auto simp: passage_def in_bounds_def d)
    then show "x + 1 < width ?m" using p c by (auto simp: passage_def d)
  qed
  have "[0..width ?m - 1] = [0, 1]" by (simp add: upto_rec1 d)
  then have "row_line ?m 1 = ''|___|'' @ endl"
    by (simp add: row_line_def south_glyph_def east_glyph_def passage_def in_bounds_def c d)
  then show ?thesis
    using draw_row_east_rule [OF wf _ _ e] wf by (simp add: d)
qed

text \<open>
  C9. For every width \<open>w \<ge> 1\<close> and height \<open>h \<ge> 1\<close> with \<open>w * h \<le> 2147483647\<close> and every seed,
  carving terminates: with room for \<open>w * h\<close> nested calls the run returns, and
  \<^verbatim>\<open>create_passage_from\<close> has been entered at most \<open>w * h\<close> times in total.
\<close>

theorem carving_terminates:
  assumes "1 \<le> w" "1 \<le> h" "w * h \<le> 2147483647" "nat (w * h) \<le> n"
  shows "\<exists>m. BackTracker n g e w h s = Inr m \<and> entries m \<le> nat (w * h)"
proof -
  obtain m where m: "BackTracker n g e w h s = Inr m" "entries m = nat (w * h)"
    using create_passage_from_root [OF assms] by blast
  then show ?thesis by simp
qed

theorem carving_terminates_witness:
  "(1::int) \<le> 2 \<and> (1::int) \<le> 2 \<and> (2::int) * 2 \<le> 2147483647 \<and> nat (2 * 2) \<le> 4 \<and>
   BackTracker 4 sample_rand used_env 2 2 7 = Inr carved_2x2 \<and>
   entries carved_2x2 \<le> nat (2 * 2)"
  using carving_terminates [of 2 2 4 sample_rand used_env 7] run_2x2 [of used_env] by simp

text \<open>
  C10. After carving a grid of width \<open>w \<ge> 1\<close> and height \<open>h \<ge> 1\<close> with
  \<open>w * h \<le> 2147483647\<close>, no border cell has an outward passage bit set: the East bit is
  clear in the last column, the West bit in the first column, the North bit in the top
  row and the South bit in the bottom row. So wherever \<^verbatim>\<open>draw\<close> looks at the East
  neighbour (the cell has its East bit set) that neighbour is a cell of the same row,
  and rendering never reads outside the cell array.
\<close>

theorem carved_borders_closed:
  assumes "1 \<le> w" "1 \<le> h" "w * h \<le> 2147483647" "nat (w * h) \<le> n"
  shows "\<exists>m. BackTracker n g e w h s = Inr m \<and> width m = w \<and> height m = h \<and>
             (\<forall>y. \<not> passage m (w - 1) y E) \<and> (\<forall>y. \<not> passage m 0 y W) \<and>
             (\<forall>x. \<not> passage m x 0 N) \<and> (\<forall>x. \<not> passage m x (h - 1) S) \<and>
             (\<forall>x y. passage m x y E \<longrightarrow> x + 1 < w) \<and>
             (\<exists>out. draw m = Inr out)"
proof -
  obtain m where m: "BackTracker n g e w h s = Inr m"
    "width m = w" "height m = h" "well_formed m" "tree_on (cells m) (half m)"
    using create_passage_from_root [OF assms] by blast
  have b: "in_bounds m (x + DX d) (y + DY d)" if "passage m x y d" for x y d
    using passage_border [OF m(5) that] .
  have "\<not> passage m (w - 1) y E" for y using b [of "w - 1" y E] m(2) by (auto simp: in_bounds_def)
  moreover have "\<not> passage m 0 y W" for y using b [of 0 y W] by (auto simp: in_bounds_def)
  moreover have "\<not> passage m x 0 N" for x using b [of x 0 N] by (auto simp: in_bounds_def)
  moreover have "\<not> passage m x (h - 1) S" for x using b [of x "h - 1" S] m(3) by (auto simp: in_bounds_def)
  moreover have e: "passage m x y E \<longrightarrow> x + 1 < w" for x y
    using b [of x y E] m(2) by (auto simp: in_bounds_def)
  moreover have "\<exists>out. draw m = Inr out"
    using draw_lines [OF m(4)] e m(2) by auto
  ultimately show ?thesis using m(1,2,3) by blast
qed

theorem carved_borders_closed_witness:
  "(1::int) \<le> 2 \<and> (1::int) \<le> 2 \<and> (2::int) * 2 \<le> 2147483647 \<and> nat (2 * 2) \<le> 4 \<and>
   BackTracker 4 sample_rand used_env 2 2 7 = Inr carved_2x2 \<and>
   (\<forall>y. \<not> passage carved_2x2 (2 - 1) y E) \<and> (\<forall>y. \<not> passage carved_2x2 0 y W) \<and>
   (\<forall>x. \<not> passage carved_2x2 x 0 N) \<and> (\<forall>x. \<not> passage carved_2x2 x (2 - 1) S) \<and>
   passage carved_2x2 0 1 E \<and> (0::int) + 1 < 2 \<and>
   (\<exists>out. draw carved_2x2 = Inr out)"
proof -
  have "passage carved_2x2 0 1 E"
    by (simp add: passage_def in_bounds_def cell_state_def index_def int32_def carved_2x2_def)
  then show ?thesis
    using carved_borders_closed [of 2 2 4 sample_rand used_env 7] run_2x2 [of used_env] by simp
qed

end
